theory Spec2Isabelle
  imports Main "HOL-Library.AList"
begin

unbundle bit_operations_syntax

section \<open>Capturing stdout/stderr at the descriptor level (pylib/stdtrap.py)\<close>

text \<open>
  The module redirects a file descriptor into a pipe, forks a collector process that
  drains the pipe into a list of sinks, and hands the collected bytes back to the parent.
  Python values are modelled as follows: byte strings as \<open>string\<close>, unbounded integers
  as \<open>int\<close>, exceptions as values of \<open>error\<close> on the left of a sum, attributes that are
  assigned as record fields returned updated. What the operating system decides (how
  many bytes a write accepts, whether a call fails) is an explicit argument.
\<close>

datatype error = OSError | IOError | KeyError | TypeError | SelectError

subsection \<open>Python values passed where a descriptor is expected\<close>

text \<open>
  An argument is either an integer or an object; an object is given by its table of
  zero-argument methods that return an integer. \<open>hasattr\<close> looks a name up in it;
  integers have no \<open>fileno\<close> attribute.
\<close>

datatype pyobj = PyInt int | PyObject "(string \<times> int) list"

fun getattr :: "pyobj \<Rightarrow> string \<Rightarrow> int option" where
  "getattr (PyInt _) name = None"
| "getattr (PyObject attrs) name = map_of attrs name"

definition hasattr :: "pyobj \<Rightarrow> string \<Rightarrow> bool" where
  "hasattr obj name = (getattr obj name \<noteq> None)"

text \<open>Calling a method the object has; the callers test \<open>hasattr\<close> first.\<close>

definition call_method :: "pyobj \<Rightarrow> string \<Rightarrow> pyobj" where
  "call_method obj name = PyInt (the (getattr obj name))"

subsection \<open>SignalEvent\<close>

text \<open>
  A process holds the \<open>value\<close> field of every SignalEvent instance it has created and
  the instance whose \<open>_sighandler\<close> is currently installed for SIGUSR1
  (\<open>signal.signal(self.SIG, self._sighandler)\<close>). Delivery of SIGUSR1 runs the installed
  handler; with no handler installed the default action ends the process (\<open>None\<close>).
\<close>

record process =
  sig_values :: "bool list"
  handler :: "nat option"

definition SignalEvent_init :: "process \<Rightarrow> process \<times> nat" where
  "SignalEvent_init p =
     (p\<lparr>sig_values := sig_values p @ [False], handler := Some (length (sig_values p))\<rparr>,
      length (sig_values p))"

definition sighandler :: "nat \<Rightarrow> process \<Rightarrow> process" where
  "sighandler self p = p\<lparr>sig_values := (sig_values p)[self := True]\<rparr>"

definition isSet :: "nat \<Rightarrow> process \<Rightarrow> bool" where
  "isSet self p = (sig_values p ! self)"

definition clear :: "nat \<Rightarrow> process \<Rightarrow> process" where
  "clear self p = p\<lparr>sig_values := (sig_values p)[self := False]\<rparr>"

definition deliver :: "process \<Rightarrow> process option" where
  "deliver p = (case handler p of None \<Rightarrow> None | Some self \<Rightarrow> Some (sighandler self p))"

datatype sig_event = Construct | Deliver | Clear nat | IsSet nat

fun sig_step :: "process \<Rightarrow> sig_event \<Rightarrow> process option" where
  "sig_step p Construct = Some (fst (SignalEvent_init p))"
| "sig_step p Deliver = deliver p"
| "sig_step p (Clear i) = Some (clear i p)"
| "sig_step p (IsSet i) = Some p"

fun sig_run :: "process \<Rightarrow> sig_event list \<Rightarrow> process option" where
  "sig_run p [] = Some p"
| "sig_run p (e # es) = (case sig_step p e of None \<Rightarrow> None | Some p' \<Rightarrow> sig_run p' es)"

subsection \<open>set\_blocking\<close>

text \<open>
  \<open>fcntl(fd, F_SETFL, arg)\<close> belongs to the operating system; it is embedded here as Linux
  implements it (\<open>setfl\<close> in fs/fcntl.c). The status flags belong to the open file
  description, which several descriptors may share, so the state is a table from
  descriptor to description and a table from description to open file. An open file
  carries its flag word and what the checks of \<open>setfl\<close> look at:

  \<^item> a change of O\_APPEND is refused (EPERM) on a file marked append-only;
  \<^item> switching O\_NOATIME on is refused (EPERM) unless the caller owns the file;
  \<^item> O\_DIRECT is refused (EINVAL) on a file that is neither a FIFO nor capable of direct
    I/O, as a terminal is;
  \<^item> the file's own \<open>check_flags\<close> operation may refuse the flag word;
  \<^item> O\_ASYNC is not written by \<open>setfl\<close> itself: when the bit differs from the current one
    and the file has a \<open>fasync\<close> operation, that operation is called, may fail, and on
    success sets or clears the bit; a file without the operation keeps its bit;
  \<^item> then O\_APPEND, O\_NONBLOCK, O\_DIRECT and O\_NOATIME are replaced by those of \<open>arg\<close> and
    every other flag is kept.

  The flag values are those of the generic Linux ABI. Python's \<open>fcntl.fcntl\<close> turns every
  error number into IOError; a descriptor that is not open is one of them.
\<close>

datatype errno = EBADF | EPERM | EINVAL | ENOMEM

definition O_APPEND :: int where "O_APPEND = 1024"
definition O_NONBLOCK :: int where "O_NONBLOCK = 2048"
definition FASYNC :: int where "FASYNC = 8192"
definition O_DIRECT :: int where "O_DIRECT = 16384"
definition O_NOATIME :: int where "O_NOATIME = 262144"
definition SETFL_MASK :: int where
  "SETFL_MASK = O_APPEND OR O_NONBLOCK OR O_DIRECT OR O_NOATIME"

record open_file =
  f_flags :: int
  is_fifo :: bool
  can_odirect :: bool
  append_only :: bool
  owner_or_capable :: bool
  check_flags :: "int \<Rightarrow> errno option"
  fasync :: "(bool \<Rightarrow> errno option) option"

definition fasync_change :: "open_file \<Rightarrow> int \<Rightarrow> errno + int" where
  "fasync_change f arg =
     (if (arg XOR f_flags f) AND FASYNC \<noteq> 0
      then (case fasync f of
              None \<Rightarrow> Inr (f_flags f)
            | Some h \<Rightarrow> (case h (arg AND FASYNC \<noteq> 0) of
                           Some e \<Rightarrow> Inl e
                         | None \<Rightarrow> Inr ((arg AND FASYNC) OR (f_flags f AND NOT FASYNC))))
      else Inr (f_flags f))"

definition setfl :: "open_file \<Rightarrow> int \<Rightarrow> errno + open_file" where
  "setfl f arg =
     (if (arg XOR f_flags f) AND O_APPEND \<noteq> 0 \<and> append_only f then Inl EPERM
      else if arg AND O_NOATIME \<noteq> 0 \<and> f_flags f AND O_NOATIME = 0 \<and> \<not> owner_or_capable f
        then Inl EPERM
      else if \<not> is_fifo f \<and> arg AND O_DIRECT \<noteq> 0 \<and> \<not> can_odirect f then Inl EINVAL
      else (case check_flags f arg of
              Some e \<Rightarrow> Inl e
            | None \<Rightarrow>
                (case fasync_change f arg of
                   Inl e \<Rightarrow> Inl e
                 | Inr fl \<Rightarrow>
                     Inr (f\<lparr>f_flags := (arg AND SETFL_MASK) OR (fl AND NOT SETFL_MASK)\<rparr>))))"

record fdstate =
  descriptors :: "int \<rightharpoonup> nat"
  descriptions :: "nat \<rightharpoonup> open_file"

definition fcntl_setfl :: "fdstate \<Rightarrow> int \<Rightarrow> int \<Rightarrow> error + fdstate" where
  "fcntl_setfl k fd arg =
     (case descriptors k fd of
        None \<Rightarrow> Inl IOError
      | Some i \<Rightarrow>
          (case descriptions k i of
             None \<Rightarrow> Inl IOError
           | Some f \<Rightarrow>
               (case setfl f arg of
                  Inl e \<Rightarrow> Inl IOError
                | Inr f' \<Rightarrow> Inr (k\<lparr>descriptions := (descriptions k)(i \<mapsto> f')\<rparr>))))"

definition set_blocking :: "fdstate \<Rightarrow> int \<Rightarrow> bool \<Rightarrow> error + fdstate" where
  "set_blocking k fd block =
     (let arg = O_NONBLOCK;
          arg = (if block then NOT arg else arg)
      in fcntl_setfl k fd arg)"

text \<open>
  Three kinds of open file as Linux has them, each with a given flag word: a regular file
  on a file system with direct I/O, owned by the caller; an end of a pipe; an end of a
  pseudo-terminal. \<open>shared_file f\<close> is a state in which descriptors 3 and 4 share the one
  open file \<open>f\<close>.
\<close>

definition regular_file :: "int \<Rightarrow> open_file" where
  "regular_file fl = \<lparr>f_flags = fl, is_fifo = False, can_odirect = True, append_only = False,
     owner_or_capable = True, check_flags = (\<lambda>_. None), fasync = None\<rparr>"

definition pipe_end :: "int \<Rightarrow> open_file" where
  "pipe_end fl = \<lparr>f_flags = fl, is_fifo = True, can_odirect = False, append_only = False,
     owner_or_capable = True, check_flags = (\<lambda>_. None), fasync = Some (\<lambda>_. None)\<rparr>"

definition pty_end :: "int \<Rightarrow> open_file" where
  "pty_end fl = \<lparr>f_flags = fl, is_fifo = False, can_odirect = False, append_only = False,
     owner_or_capable = True, check_flags = (\<lambda>_. None), fasync = Some (\<lambda>_. None)\<rparr>"

definition shared_file :: "open_file \<Rightarrow> fdstate" where
  "shared_file f =
     \<lparr>descriptors = Map.empty(3 \<mapsto> 0, 4 \<mapsto> 0), descriptions = Map.empty(0 \<mapsto> f)\<rparr>"

subsection \<open>Sink\<close>

record Sink =
  fd :: pyobj
  data :: string

definition Sink_init :: "pyobj \<Rightarrow> Sink" where
  "Sink_init arg =
     (let fd = (if hasattr arg ''fileno'' then call_method arg ''fileno'' else arg)
      in \<lparr>fd = fd, data = ''''\<rparr>)"

definition Sink_buffer :: "string \<Rightarrow> Sink \<Rightarrow> Sink" where
  "Sink_buffer d s = s\<lparr>data := data s @ d\<rparr>"

text \<open>
  \<open>os.write(fd, buf)\<close> either raises or hands a prefix of \<open>buf\<close> to the descriptor's
  target and returns its length. Which of the two happens, and how many bytes the target
  accepts, is the operating system's choice \<open>write_outcome\<close>; \<open>dest\<close> is what the target
  has received so far.
\<close>

datatype write_outcome = WriteError | Written nat

definition os_write :: "write_outcome \<Rightarrow> string \<Rightarrow> string \<Rightarrow> error + (string \<times> nat)" where
  "os_write oc dest buf =
     (case oc of
        WriteError \<Rightarrow> Inl OSError
      | Written n \<Rightarrow> Inr (dest @ take n buf, min n (length buf)))"

definition Sink_write :: "write_outcome \<Rightarrow> string \<Rightarrow> Sink \<Rightarrow> (Sink \<times> string) \<times> bool" where
  "Sink_write oc dest s =
     (case os_write oc dest (data s) of
        Inl e \<Rightarrow> ((s, dest), False)
      | Inr (dest', written) \<Rightarrow>
          (let s' = s\<lparr>data := drop written (data s)\<rparr>
           in if data s' = [] then ((s', dest'), True) else ((s', dest'), False)))"

text \<open>A sequence of calls on one sink; \<open>received\<close> is everything passed to \<open>buffer\<close>.\<close>

datatype sink_op = Buffer string | Write write_outcome

fun sink_step :: "Sink \<times> string \<Rightarrow> sink_op \<Rightarrow> Sink \<times> string" where
  "sink_step (s, dest) (Buffer d) = (Sink_buffer d s, dest)"
| "sink_step (s, dest) (Write oc) = fst (Sink_write oc dest s)"

fun sink_run :: "Sink \<times> string \<Rightarrow> sink_op list \<Rightarrow> Sink \<times> string" where
  "sink_run st [] = st"
| "sink_run st (op # ops) = sink_run (sink_step st op) ops"

fun received :: "sink_op list \<Rightarrow> string" where
  "received [] = []"
| "received (Buffer d # ops) = d @ received ops"
| "received (Write oc # ops) = received ops"

subsection \<open>The calling process and its system calls\<close>

text \<open>
  A call either returns, raises, or never returns to its caller (it blocks for ever).
  The state of the calling process, as far as this module touches it:
  \<^item> \<open>fds\<close>, its descriptor table, from descriptor number to open file description;
    new descriptors are the lowest free number below \<open>nofile\<close>, and a call that needs
    one fails when there is none; \<open>next_ofd\<close> numbers new open file descriptions;
  \<^item> \<open>nproc\<close>, how many more processes may be created (fork fails at 0), \<open>next_pid\<close>
    and the \<open>children\<close> not yet reaped;
  \<^item> \<open>proc\<close>, its SignalEvent instances, and \<open>sig_arrival\<close>, after how many more looks
    at the flag the child's SIGUSR1 arrives (\<open>None\<close>: no signal on its way);
  \<^item> \<open>stream_data\<close>, for an open file description that is read, the bytes that arrive
    up to end-of-stream (\<open>None\<close>: the stream never ends), and \<open>will_exit\<close>, whether a
    child terminates;
  \<^item> \<open>heap\<close>, the contents of the StringIO objects, by address;
  \<^item> \<open>trace\<close>, the calls made so far, in order.
\<close>

datatype 'a outcome = Returns 'a | Raises error | NoReturn

datatype syscall =
    SysDup int | SysPipe | SysOpenpty | SysDup2 int int | SysClose int
  | SysSignal | SysFork | SysKill int | SysRead int | SysWaitpid int | SysFlush int

record os =
  fds :: "int \<rightharpoonup> nat"
  nofile :: nat
  next_ofd :: nat
  nproc :: nat
  next_pid :: int
  children :: "int list"
  proc :: process
  sig_arrival :: "nat option"
  stream_data :: "nat \<Rightarrow> string option"
  will_exit :: "int \<Rightarrow> bool"
  heap :: "string list"
  trace :: "syscall list"

definition then_do ::
  "(os \<Rightarrow> 'a outcome \<times> os) \<Rightarrow> ('a \<Rightarrow> os \<Rightarrow> 'b outcome \<times> os) \<Rightarrow> os \<Rightarrow> 'b outcome \<times> os" where
  "then_do m f s =
     (case m s of
        (Returns a, s') \<Rightarrow> f a s'
      | (Raises e, s') \<Rightarrow> (Raises e, s')
      | (NoReturn, s') \<Rightarrow> (NoReturn, s'))"

definition ret :: "'a \<Rightarrow> os \<Rightarrow> 'a outcome \<times> os" where
  "ret a s = (Returns a, s)"

definition log :: "syscall \<Rightarrow> os \<Rightarrow> os" where
  "log c s = s\<lparr>trace := trace s @ [c]\<rparr>"

definition lowest_free :: "os \<Rightarrow> int option" where
  "lowest_free s = find (\<lambda>n. fds s n = None) (map int [0..<nofile s])"

definition os_dup :: "int \<Rightarrow> os \<Rightarrow> int outcome \<times> os" where
  "os_dup old s =
     (let s1 = log (SysDup old) s in
      case fds s1 old of
        None \<Rightarrow> (Raises OSError, s1)
      | Some d \<Rightarrow>
          (case lowest_free s1 of
             None \<Rightarrow> (Raises OSError, s1)
           | Some n \<Rightarrow> (Returns n, s1\<lparr>fds := (fds s1)(n \<mapsto> d)\<rparr>)))"

definition open_pair :: "syscall \<Rightarrow> os \<Rightarrow> (int \<times> int) outcome \<times> os" where
  "open_pair call s =
     (let s1 = log call s in
      case lowest_free s1 of
        None \<Rightarrow> (Raises OSError, s1)
      | Some r \<Rightarrow>
          (case lowest_free (s1\<lparr>fds := (fds s1)(r \<mapsto> next_ofd s1)\<rparr>) of
             None \<Rightarrow> (Raises OSError, s1)
           | Some w \<Rightarrow>
               (Returns (r, w),
                s1\<lparr>fds := (fds s1)(r \<mapsto> next_ofd s1, w \<mapsto> Suc (next_ofd s1)),
                   next_ofd := next_ofd s1 + 2\<rparr>)))"

definition os_pipe :: "os \<Rightarrow> (int \<times> int) outcome \<times> os" where
  "os_pipe = open_pair SysPipe"

definition os_openpty :: "os \<Rightarrow> (int \<times> int) outcome \<times> os" where
  "os_openpty = open_pair SysOpenpty"

definition os_dup2 :: "int \<Rightarrow> int \<Rightarrow> os \<Rightarrow> unit outcome \<times> os" where
  "os_dup2 old new s =
     (let s1 = log (SysDup2 old new) s in
      case fds s1 old of
        None \<Rightarrow> (Raises OSError, s1)
      | Some d \<Rightarrow> (Returns (), s1\<lparr>fds := (fds s1)(new \<mapsto> d)\<rparr>))"

definition os_close :: "int \<Rightarrow> os \<Rightarrow> unit outcome \<times> os" where
  "os_close n s =
     (let s1 = log (SysClose n) s in
      case fds s1 n of
        None \<Rightarrow> (Raises OSError, s1)
      | Some d \<Rightarrow> (Returns (), s1\<lparr>fds := (fds s1)(n := None)\<rparr>))"

definition os_fork :: "os \<Rightarrow> int outcome \<times> os" where
  "os_fork s =
     (let s1 = log SysFork s in
      if nproc s1 = 0 then (Raises OSError, s1)
      else (Returns (next_pid s1),
            s1\<lparr>nproc := nproc s1 - 1, next_pid := next_pid s1 + 1,
               children := next_pid s1 # children s1\<rparr>))"

definition os_kill :: "int \<Rightarrow> os \<Rightarrow> unit outcome \<times> os" where
  "os_kill pid s =
     (let s1 = log (SysKill pid) s in
      if pid \<in> set (children s1) then (Returns (), s1) else (Raises OSError, s1))"

definition os_waitpid :: "int \<Rightarrow> os \<Rightarrow> unit outcome \<times> os" where
  "os_waitpid pid s =
     (let s1 = log (SysWaitpid pid) s in
      if pid \<notin> set (children s1) then (Raises OSError, s1)
      else if will_exit s1 pid then (Returns (), s1\<lparr>children := removeAll pid (children s1)\<rparr>)
      else (NoReturn, s1))"

text \<open>\<open>fh.read()\<close> on a file object: everything up to end-of-stream.\<close>

definition file_read :: "int \<Rightarrow> os \<Rightarrow> string outcome \<times> os" where
  "file_read n s =
     (let s1 = log (SysRead n) s in
      case fds s1 n of
        None \<Rightarrow> (Raises IOError, s1)
      | Some d \<Rightarrow>
          (case stream_data s1 d of
             None \<Rightarrow> (NoReturn, s1)
           | Some bytes \<Rightarrow> (Returns bytes, s1\<lparr>stream_data := (stream_data s1)(d := Some [])\<rparr>)))"

definition flush :: "int \<Rightarrow> os \<Rightarrow> unit outcome \<times> os" where
  "flush n s = (Returns (), log (SysFlush n) s)"

definition StringIO :: "string \<Rightarrow> os \<Rightarrow> nat outcome \<times> os" where
  "StringIO buf s = (Returns (length (heap s)), s\<lparr>heap := heap s @ [buf]\<rparr>)"

text \<open>\<open>SignalEvent.send\<close> and the constructor, as calls of the process.\<close>

definition SignalEvent_send :: "int \<Rightarrow> os \<Rightarrow> unit outcome \<times> os" where
  "SignalEvent_send pid = os_kill pid"

definition SignalEvent_new :: "os \<Rightarrow> nat outcome \<times> os" where
  "SignalEvent_new s =
     (let s1 = log SysSignal s
      in (Returns (snd (SignalEvent_init (proc s1))), s1\<lparr>proc := fst (SignalEvent_init (proc s1))\<rparr>))"

text \<open>
  The parent's wait \<open>while not signal_continue.isSet(): pass\<close>. Between two looks at the
  flag the pending signal comes one step nearer; when it arrives the installed handler
  runs (and the process ends if there is none).
\<close>

definition tick :: "os \<Rightarrow> os option" where
  "tick s =
     (case sig_arrival s of
        None \<Rightarrow> Some s
      | Some 0 \<Rightarrow> map_option (\<lambda>p. s\<lparr>proc := p, sig_arrival := None\<rparr>) (deliver (proc s))
      | Some (Suc k) \<Rightarrow> Some (s\<lparr>sig_arrival := Some k\<rparr>))"

partial_function (option) busy_wait :: "nat \<Rightarrow> os \<Rightarrow> os option" where
  "busy_wait self s =
     (if isSet self (proc s) then Some s else Option.bind (tick s) (busy_wait self))"

declare busy_wait.simps [code]

definition wait_isSet :: "nat \<Rightarrow> os \<Rightarrow> unit outcome \<times> os" where
  "wait_isSet self s =
     (case busy_wait self s of None \<Rightarrow> (NoReturn, s) | Some s' \<Rightarrow> (Returns (), s'))"

subsection \<open>Pipe and Splicer, parent side\<close>

text \<open>
  \<open>os.fdopen\<close> wraps a descriptor in an unbuffered file object; here a file object is
  its descriptor number, and closing the object closes the descriptor.
\<close>

record Pipe =
  pipe_r :: int
  pipe_w :: int

definition Pipe_init :: "os \<Rightarrow> Pipe outcome \<times> os" where
  "Pipe_init = then_do os_pipe (\<lambda>(r, w). ret \<lparr>pipe_r = r, pipe_w = w\<rparr>)"

text \<open>
  \<open>_splice\<close> as the calling process runs it: the branch taken when \<open>os.fork()\<close> returns a
  non-zero pid. The other branch runs in the forked child and is the collector below;
  \<open>transparent\<close> and \<open>files\<close> are used there only.
\<close>

definition splice ::
  "int \<Rightarrow> bool \<Rightarrow> bool \<Rightarrow> pyobj list \<Rightarrow> os \<Rightarrow> (int \<times> int \<times> int) outcome \<times> os" where
  "splice spliced_fd usepty transparent files =
     then_do (os_dup spliced_fd) (\<lambda>orig_fd_dup.
     then_do (if usepty then os_openpty else os_pipe) (\<lambda>(r, w).
     then_do (os_dup2 w spliced_fd) (\<lambda>_.
     then_do (os_close w) (\<lambda>_.
     then_do Pipe_init (\<lambda>outpipe.
     then_do SignalEvent_new (\<lambda>signal_event.
     then_do os_fork (\<lambda>splicer_pid.
       if splicer_pid \<noteq> 0 then
         then_do (os_close (pipe_w outpipe)) (\<lambda>_.
         then_do (os_close r) (\<lambda>_.
         then_do (wait_isSet signal_event) (\<lambda>_.
         ret (splicer_pid, pipe_r outpipe, orig_fd_dup))))
       else (\<lambda>s. (NoReturn, s)))))))))"

record Splicer =
  splicer_pid :: int
  splicer_reader :: int
  orig_fd_dup :: int
  spliced_fd :: int

definition Splicer_init ::
  "int \<Rightarrow> bool \<Rightarrow> bool \<Rightarrow> pyobj list \<Rightarrow> os \<Rightarrow> Splicer outcome \<times> os" where
  "Splicer_init fd0 usepty transparent files =
     then_do (splice fd0 usepty transparent files) (\<lambda>(pid, reader, orig).
     ret \<lparr>splicer_pid = pid, splicer_reader = reader, orig_fd_dup = orig, spliced_fd = fd0\<rparr>)"

definition Splicer_close :: "Splicer \<Rightarrow> os \<Rightarrow> string outcome \<times> os" where
  "Splicer_close self =
     then_do (os_dup2 (orig_fd_dup self) (spliced_fd self)) (\<lambda>_.
     then_do (SignalEvent_send (splicer_pid self)) (\<lambda>_.
     then_do (os_close (orig_fd_dup self)) (\<lambda>_.
     then_do (file_read (splicer_reader self)) (\<lambda>captured.
     then_do (os_waitpid (splicer_pid self)) (\<lambda>_.
     ret captured)))))"

subsection \<open>UnitedStdTrap\<close>

text \<open>
  \<open>sys_stdout\<close> and \<open>sys_stderr\<close> are \<open>sys.stdout.fileno()\<close> and \<open>sys.stderr.fileno()\<close>.
  The three result attributes hold the address of a StringIO object.
\<close>

record UnitedStdTrap =
  trap_usepty :: bool
  trap_transparent :: bool
  stdout_splice :: Splicer
  stderr_dupfd :: int
  std :: "nat option"
  stderr :: "nat option"
  stdout :: "nat option"

definition UnitedStdTrap_init ::
  "int \<Rightarrow> int \<Rightarrow> bool \<Rightarrow> bool \<Rightarrow> pyobj list \<Rightarrow> os \<Rightarrow> UnitedStdTrap outcome \<times> os" where
  "UnitedStdTrap_init sys_stdout sys_stderr usepty transparent files =
     then_do (flush sys_stdout) (\<lambda>_.
     then_do (Splicer_init sys_stdout usepty transparent files) (\<lambda>splice1.
     then_do (flush sys_stderr) (\<lambda>_.
     then_do (os_dup sys_stderr) (\<lambda>dupfd.
     then_do (os_dup2 sys_stdout sys_stderr) (\<lambda>_.
     ret \<lparr>trap_usepty = usepty, trap_transparent = transparent, stdout_splice = splice1,
          stderr_dupfd = dupfd, std = None, stderr = None, stdout = None\<rparr>)))))"

definition UnitedStdTrap_close ::
  "int \<Rightarrow> int \<Rightarrow> UnitedStdTrap \<Rightarrow> os \<Rightarrow> UnitedStdTrap outcome \<times> os" where
  "UnitedStdTrap_close sys_stdout sys_stderr self =
     then_do (flush sys_stdout) (\<lambda>_.
     then_do (Splicer_close (stdout_splice self)) (\<lambda>captured.
     then_do (StringIO captured) (\<lambda>a.
     then_do (flush sys_stderr) (\<lambda>_.
     then_do (os_dup2 (stderr_dupfd self) sys_stderr) (\<lambda>_.
     then_do (os_close (stderr_dupfd self)) (\<lambda>_.
     ret (self\<lparr>std := Some a, stderr := Some a, stdout := Some a\<rparr>)))))))"

subsection \<open>The collector: the forked child\<close>

text \<open>
  Event bits of \<open>select\<close> (their Linux values) and the poll object, a dictionary from
  registered descriptor to event mask, kept as an association list in registration
  order. \<open>register\<close> and \<open>unregister\<close> take an integer or an object with \<open>fileno()\<close>;
  \<open>unregister\<close> raises KeyError for a descriptor that is not registered.
\<close>

definition POLLIN :: int where "POLLIN = 1"
definition POLLPRI :: int where "POLLPRI = 2"
definition POLLOUT :: int where "POLLOUT = 4"
definition POLLERR :: int where "POLLERR = 8"
definition POLLHUP :: int where "POLLHUP = 16"
definition POLLNVAL :: int where "POLLNVAL = 32"

type_synonym pollset = "(int \<times> int) list"

fun as_fd :: "pyobj \<Rightarrow> int option" where
  "as_fd (PyInt n) = Some n"
| "as_fd (PyObject attrs) = map_of attrs ''fileno''"

definition poll_register :: "pyobj \<Rightarrow> int \<Rightarrow> pollset \<Rightarrow> error + pollset" where
  "poll_register obj eventmask ps =
     (case as_fd obj of
        None \<Rightarrow> Inl TypeError
      | Some n \<Rightarrow> Inr (AList.update n eventmask ps))"

definition poll_unregister :: "pyobj \<Rightarrow> pollset \<Rightarrow> error + pollset" where
  "poll_unregister obj ps =
     (case as_fd obj of
        None \<Rightarrow> Inl TypeError
      | Some n \<Rightarrow> (if map_of ps n = None then Inl KeyError else Inr (AList.delete n ps)))"

text \<open>
  The child closes the ends it does not use, makes the channel's read end and the
  outpipe's write end non-blocking, registers the read end with the poll object,
  signals the parent and builds its sinks; \<open>collector_init\<close> is the state in which it
  enters the loop. The state of the collector process and of what it is connected to:
  \<^item> \<open>chan\<close>, the bytes written into the channel and not yet read from its read end
    \<open>r_fd\<close>, and \<open>hup\<close>, whether every write end of the channel is closed;
  \<^item> \<open>out\<close>, for every descriptor, the bytes its target has received; what the parent
    reads from the outpipe up to end-of-stream is \<open>out\<close> at \<open>outpipe_fileno\<close>;
  \<^item> \<open>cproc\<close>, the SignalEvent instances of the process, with \<open>signal_closed\<close>;
  \<^item> the local variables \<open>sinks\<close>, \<open>closed\<close> and \<open>poll\<close>.
\<close>

record collector =
  chan :: string
  hup :: bool
  out :: "int \<Rightarrow> string"
  cproc :: process
  signal_closed :: nat
  r_fd :: int
  outpipe_fileno :: int
  sinks :: "Sink list"
  closed :: bool
  poll :: pollset

text \<open>
  What the operating system decides during one iteration: whether \<open>poll\<close> is
  interrupted, which events are ready on the descriptors other than the channel's read
  end, and what a write to each descriptor does.
\<close>

record env =
  poll_fails :: bool
  ready :: "int \<Rightarrow> int"
  accepts :: "int \<Rightarrow> write_outcome"

definition revents :: "env \<Rightarrow> collector \<Rightarrow> int \<Rightarrow> int \<Rightarrow> int" where
  "revents e c n eventmask =
     (if n = r_fd c
      then (if chan c \<noteq> [] then POLLIN else 0) OR (if hup c then POLLHUP else 0)
      else ready e n)
     AND (eventmask OR POLLERR OR POLLHUP OR POLLNVAL)"

definition poll_poll :: "env \<Rightarrow> collector \<Rightarrow> error + (int \<times> int) list" where
  "poll_poll e c =
     (if poll_fails e then Inl SelectError
      else Inr (filter (\<lambda>(n, ev). ev \<noteq> 0)
                  (map (\<lambda>(n, eventmask). (n, revents e c n eventmask)) (poll c))))"

text \<open>
  \<open>r_fh.read()\<close> on the non-blocking read end: everything that is there; with nothing
  there it is the empty string at end-of-stream and an IOError otherwise.
\<close>

definition r_fh_read :: "collector \<Rightarrow> error + (string \<times> collector)" where
  "r_fh_read c =
     (if chan c = [] \<and> \<not> hup c then Inl IOError else Inr (chan c, c\<lparr>chan := []\<rparr>))"

definition make_sinks :: "int \<Rightarrow> pyobj list \<Rightarrow> bool \<Rightarrow> int \<Rightarrow> Sink list" where
  "make_sinks outfd files transparent orig =
     (let sinks = [Sink_init (PyInt outfd)];
          sinks = (if files \<noteq> [] then sinks @ map Sink_init files else sinks);
          sinks = (if transparent then sinks @ [Sink_init (PyInt orig)] else sinks)
      in sinks)"

definition collector_init ::
  "int \<Rightarrow> int \<Rightarrow> int \<Rightarrow> bool \<Rightarrow> pyobj list \<Rightarrow> process \<Rightarrow> nat \<Rightarrow> collector" where
  "collector_init r outfd orig transparent files p signal_event =
     \<lparr>chan = [], hup = False, out = (\<lambda>_. []), cproc = p, signal_closed = signal_event,
      r_fd = r, outpipe_fileno = outfd,
      sinks = make_sinks outfd files transparent orig,
      closed = False,
      poll = [(r, POLLIN OR POLLHUP)]\<rparr>"

text \<open>
  The loops of the body return the state they reached and the exception that ended
  them, if any. First \<open>for sink in sinks: sink.buffer(data); poll.register(sink.fd)\<close>.
\<close>

fun buffer_all :: "string \<Rightarrow> Sink list \<Rightarrow> pollset \<Rightarrow> Sink list \<times> pollset \<times> error option" where
  "buffer_all d [] ps = ([], ps, None)"
| "buffer_all d (sink # rest) ps =
     (let sink' = Sink_buffer d sink in
      case poll_register (fd sink') (POLLIN OR POLLPRI OR POLLOUT) ps of
        Inl err \<Rightarrow> (sink' # rest, ps, Some err)
      | Inr ps' \<Rightarrow>
          (case buffer_all d rest ps' of (rest', ps'', err) \<Rightarrow> (sink' # rest', ps'', err)))"

text \<open>The loop over the sinks for an event \<open>(n, evmask)\<close> on another descriptor.\<close>

fun write_sinks ::
  "env \<Rightarrow> int \<Rightarrow> int \<Rightarrow> Sink list \<Rightarrow> (int \<Rightarrow> string) \<Rightarrow> pollset
     \<Rightarrow> Sink list \<times> (int \<Rightarrow> string) \<times> pollset \<times> error option" where
  "write_sinks e n evmask [] dst ps = ([], dst, ps, None)"
| "write_sinks e n evmask (sink # rest) dst ps =
     (if fd sink \<noteq> PyInt n then
        (case write_sinks e n evmask rest dst ps of
           (rest', dst', ps', err) \<Rightarrow> (sink # rest', dst', ps', err))
      else if evmask AND POLLOUT \<noteq> 0 then
        (case Sink_write (accepts e n) (dst n) sink of
           ((sink', dest'), wrote_all) \<Rightarrow>
             (if wrote_all then
                (case poll_unregister (fd sink') ps of
                   Inl err \<Rightarrow> (sink' # rest, dst(n := dest'), ps, Some err)
                 | Inr ps' \<Rightarrow>
                     (case write_sinks e n evmask rest (dst(n := dest')) ps' of
                        (rest', dst', ps'', err) \<Rightarrow> (sink' # rest', dst', ps'', err)))
              else
                (case write_sinks e n evmask rest (dst(n := dest')) ps of
                   (rest', dst', ps', err) \<Rightarrow> (sink' # rest', dst', ps', err))))
      else
        (case write_sinks e n evmask rest dst ps of
           (rest', dst', ps', err) \<Rightarrow> (sink # rest', dst', ps', err)))"

definition read_and_buffer :: "collector \<Rightarrow> collector \<times> error option" where
  "read_and_buffer c =
     (case r_fh_read c of
        Inl err \<Rightarrow> (c, Some err)
      | Inr (d, c1) \<Rightarrow>
          (case buffer_all d (sinks c1) (poll c1) of
             (ss, ps, Some err) \<Rightarrow> (c1\<lparr>sinks := ss, poll := ps\<rparr>, Some err)
           | (ss, ps, None) \<Rightarrow>
               (case poll_register (PyInt (outpipe_fileno c1)) POLLOUT ps of
                  Inl err \<Rightarrow> (c1\<lparr>sinks := ss, poll := ps\<rparr>, Some err)
                | Inr ps' \<Rightarrow> (c1\<lparr>sinks := ss, poll := ps'\<rparr>, None))))"

definition handle_event :: "env \<Rightarrow> int \<times> int \<Rightarrow> collector \<Rightarrow> collector \<times> error option" where
  "handle_event e ev c =
     (case ev of (n, evmask) \<Rightarrow>
        if n = r_fd c then
          (case (if evmask AND POLLIN \<noteq> 0 then read_and_buffer c else (c, None)) of
             (c1, Some err) \<Rightarrow> (c1, Some err)
           | (c1, None) \<Rightarrow>
               if evmask AND POLLHUP \<noteq> 0 then
                 (let c2 = c1\<lparr>closed := True\<rparr> in
                  case poll_unregister (PyInt n) (poll c2) of
                    Inl err \<Rightarrow> (c2, Some err)
                  | Inr ps \<Rightarrow> (c2\<lparr>poll := ps\<rparr>, None))
               else (c1, None))
        else
          (case write_sinks e n evmask (sinks c) (out c) (poll c) of
             (ss, dst, ps, err) \<Rightarrow> (c\<lparr>sinks := ss, out := dst, poll := ps\<rparr>, err)))"

fun handle_events :: "env \<Rightarrow> (int \<times> int) list \<Rightarrow> collector \<Rightarrow> collector \<times> error option" where
  "handle_events e [] c = (c, None)"
| "handle_events e (ev # evs) c =
     (case handle_event e ev c of
        (c', Some err) \<Rightarrow> (c', Some err)
      | (c', None) \<Rightarrow> handle_events e evs c')"

text \<open>One iteration of \<open>while True\<close>: it goes on, breaks, or an exception leaves it.\<close>

datatype step_result = Continue collector | Break collector | Raise error collector

definition loop_body :: "env \<Rightarrow> collector \<Rightarrow> step_result" where
  "loop_body e c =
     (let has_unwritten_data = (True \<in> set (map (\<lambda>sink. data sink \<noteq> []) (sinks c)));
          c1 = (if \<not> closed c then c\<lparr>closed := isSet (signal_closed c) (cproc c)\<rparr> else c)
      in if closed c1 \<and> \<not> has_unwritten_data then Break c1
         else
           (let events = (case poll_poll e c1 of Inl err \<Rightarrow> [] | Inr evs \<Rightarrow> evs)
            in case handle_events e events c1 of
                 (c2, Some err) \<Rightarrow> Raise err c2
               | (c2, None) \<Rightarrow> Continue c2))"

text \<open>
  The collector runs beside the trapped process. What happens, in the order in which
  it happens: the trapped process writes to the spliced descriptor (which it can do
  only while a write end of the channel is open), the last write end of the channel is
  closed, SIGUSR1 is delivered to the collector, the collector runs one iteration of
  its loop. After \<open>break\<close> the collector calls \<open>os._exit(0)\<close>; an exception
  that leaves the loop leaves \<open>_splice\<close> without reaching that call; a signal without a
  handler ends the process. Bytes written once the collector is gone stay in the
  channel.
\<close>

datatype event = Wrote string | CloseWriter | Signal | Iterate env

datatype child = Running collector | Exited int collector | Crashed error collector
  | Killed collector

fun child_step :: "child \<Rightarrow> event \<Rightarrow> child" where
  "child_step (Running c) (Wrote bytes) = Running (c\<lparr>chan := chan c @ bytes\<rparr>)"
| "child_step (Exited n c) (Wrote bytes) = Exited n (c\<lparr>chan := chan c @ bytes\<rparr>)"
| "child_step (Crashed err c) (Wrote bytes) = Crashed err (c\<lparr>chan := chan c @ bytes\<rparr>)"
| "child_step (Killed c) (Wrote bytes) = Killed (c\<lparr>chan := chan c @ bytes\<rparr>)"
| "child_step (Running c) CloseWriter = Running (c\<lparr>hup := True\<rparr>)"
| "child_step (Running c) Signal =
     (case deliver (cproc c) of None \<Rightarrow> Killed c | Some p \<Rightarrow> Running (c\<lparr>cproc := p\<rparr>))"
| "child_step (Running c) (Iterate e) =
     (case loop_body e c of
        Continue c' \<Rightarrow> Running c'
      | Break c' \<Rightarrow> Exited 0 c'
      | Raise err c' \<Rightarrow> Crashed err c')"
| "child_step st ev = st"

fun child_run :: "child \<Rightarrow> event list \<Rightarrow> child" where
  "child_run st [] = st"
| "child_run st (ev # evs) = child_run (child_step st ev) evs"

text \<open>The collector's state, whatever became of the process.\<close>

fun collector_of :: "child \<Rightarrow> collector" where
  "collector_of (Running c) = c"
| "collector_of (Exited n c) = c"
| "collector_of (Crashed err c) = c"
| "collector_of (Killed c) = c"

text \<open>
  For stating properties: a stop has been observed when the stop signal has set the
  flag or the channel has hung up; the collector is drained when no sink holds bytes;
  the bytes that have entered the channel are, in order, those the outpipe has
  received, those pending in the outpipe's sink (the first sink) and those not yet read.
\<close>

definition stop_observed :: "collector \<Rightarrow> bool" where
  "stop_observed c = (isSet (signal_closed c) (cproc c) \<or> hup c)"

definition drained :: "collector \<Rightarrow> bool" where
  "drained c = (\<forall>sink \<in> set (sinks c). data sink = [])"

definition in_flight :: "collector \<Rightarrow> string" where
  "in_flight c = out c (outpipe_fileno c) @ data (hd (sinks c)) @ chan c"

text \<open>
  The outpipe's sink is the first sink and the only one on the outpipe's descriptor;
  the sinks are on pairwise different integer descriptors, none of them the channel's
  read end (and the poll object has one entry for each key).
\<close>

definition outpipe_first :: "collector \<Rightarrow> bool" where
  "outpipe_first c =
     (\<exists>s0 rest. sinks c = s0 # rest \<and> fd s0 = PyInt (outpipe_fileno c)
        \<and> PyInt (outpipe_fileno c) \<notin> fd ` set rest)"

definition distinct_sinks :: "collector \<Rightarrow> bool" where
  "distinct_sinks c =
     (distinct (map fd (sinks c))
      \<and> (\<forall>sink \<in> set (sinks c). \<exists>k. fd sink = PyInt k \<and> k \<noteq> r_fd c)
      \<and> distinct (map fst (poll c)))"

text \<open>Everything the trapped process wrote during a run.\<close>

fun written :: "event list \<Rightarrow> string" where
  "written [] = []"
| "written (Wrote bytes # evs) = bytes @ written evs"
| "written (ev # evs) = written evs"

subsection \<open>An example process\<close>

text \<open>
  A process with descriptors 0, 1 and 2 open on three different targets, room for eight
  descriptors, one more process allowed, a child that signals promptly, writes \<open>ab\<close>
  to its outpipe and terminates.
\<close>

definition os_example :: os where
  "os_example =
     \<lparr>fds = [0 \<mapsto> 0, 1 \<mapsto> 1, 2 \<mapsto> 2], nofile = 8, next_ofd = 3, nproc = 1,
      next_pid = 100, children = [], proc = \<lparr>sig_values = [], handler = None\<rparr>,
      sig_arrival = Some 1, stream_data = (\<lambda>_. Some ''ab''), will_exit = (\<lambda>_. True),
      heap = [], trace = []\<rparr>"

section \<open>Properties\<close>

subsection \<open>Sink\<close>

text \<open>
  C10: the constructor takes the descriptor from \<open>fileno()\<close> when the argument has that
  attribute and takes the argument itself otherwise; the pending buffer starts empty.
\<close>

theorem Sink_init_fd:
  "fd (Sink_init arg) = (if hasattr arg ''fileno'' then call_method arg ''fileno'' else arg)
   \<and> data (Sink_init arg) = []
   \<and> fd (Sink_init (PyInt n)) = PyInt n
   \<and> fd (Sink_init (PyObject [(''fileno'', n)])) = PyInt n"
  by (simp add: Sink_init_def hasattr_def call_method_def)

text \<open>
  C4: a write never raises. When the operating system's write fails the sink and its
  target are unchanged and the result is False; when it accepts \<open>n\<close> bytes, exactly that
  prefix of the pending buffer goes to the target and leaves the buffer, and the result
  is True exactly when the buffer is empty afterwards.
\<close>

theorem Sink_write_never_raises:
  "Sink_write WriteError dest s = ((s, dest), False)
   \<and> Sink_write (Written n) dest s =
       ((s\<lparr>data := drop n (data s)\<rparr>, dest @ take n (data s)), drop n (data s) = [])
   \<and> take n (data s) @ data (fst (fst (Sink_write (Written n) dest s))) = data s
   \<and> snd (Sink_write (Written n) dest s)
       = (data (fst (fst (Sink_write (Written n) dest s))) = [])"
  by (auto simp: Sink_write_def os_write_def Let_def min_def)

lemma sink_step_suffix:
  "sink_step (s, dest) op = (s', dest') \<Longrightarrow>
     dest' @ data s' = dest @ data s @ (case op of Buffer d \<Rightarrow> d | Write _ \<Rightarrow> [])"
  by (cases op)
     (auto simp: Sink_write_def os_write_def Sink_buffer_def Let_def
           split: write_outcome.splits if_splits)

lemma sink_run_suffix:
  "snd (sink_run (s, dest) ops) @ data (fst (sink_run (s, dest) ops))
     = dest @ data s @ received ops"
proof (induction ops arbitrary: s dest)
  case Nil
  show ?case by simp
next
  case (Cons op ops)
  obtain s' dest' where st: "sink_step (s, dest) op = (s', dest')"
    by (cases "sink_step (s, dest) op")
  from sink_step_suffix[OF st] Cons.IH[of s' dest'] st show ?case
    by (cases op) auto
qed

text \<open>
  C7: after any sequence of \<open>buffer\<close> and \<open>write\<close> calls on a fresh sink, what the target
  has received followed by the pending buffer is everything that was passed to \<open>buffer\<close>:
  the pending buffer is the suffix not yet written. \<open>buffer\<close> does no I/O, a failed write
  changes nothing, and a successful write reports True exactly when the buffer is empty.
\<close>

theorem Sink_pending_is_unwritten_suffix:
  "snd (sink_run (Sink_init arg, []) ops) @ data (fst (sink_run (Sink_init arg, []) ops))
     = received ops
   \<and> data (fst (sink_run (Sink_init arg, []) ops))
     = drop (length (snd (sink_run (Sink_init arg, []) ops))) (received ops)
   \<and> sink_step (s, dest) (Buffer d) = (s\<lparr>data := data s @ d\<rparr>, dest)
   \<and> sink_step (s, dest) (Write WriteError) = (s, dest)
   \<and> snd (Sink_write (Written n) dest s)
       = (data (fst (fst (Sink_write (Written n) dest s))) = [])"
proof -
  have a: "snd (sink_run (Sink_init arg, []) ops)
             @ data (fst (sink_run (Sink_init arg, []) ops)) = received ops"
    using sink_run_suffix[of "Sink_init arg" "[]" ops] by (simp add: Sink_init_def)
  have b: "data (fst (sink_run (Sink_init arg, []) ops))
             = drop (length (snd (sink_run (Sink_init arg, []) ops))) (received ops)"
    by (metis a append_eq_conv_conj)
  have c: "sink_step (s, dest) (Buffer d) = (s\<lparr>data := data s @ d\<rparr>, dest)"
    by (simp add: Sink_buffer_def)
  have d: "sink_step (s, dest) (Write WriteError) = (s, dest)"
    by (simp add: Sink_write_def os_write_def)
  have e: "snd (Sink_write (Written n) dest s)
             = (data (fst (fst (Sink_write (Written n) dest s))) = [])"
    by (simp add: Sink_write_def os_write_def Let_def)
  from a b c d e show ?thesis by blast
qed

subsection \<open>set\_blocking\<close>

lemmas flag_defs =
  O_APPEND_def O_NONBLOCK_def FASYNC_def O_DIRECT_def O_NOATIME_def SETFL_MASK_def

lemma xor_outside: "(a::int) AND b = 0 \<Longrightarrow> (a XOR x) AND b = x AND b"
  by (auto simp: bit_eq_iff bit_simps)

lemma setfl_word_inside:
  "(b::int) AND m = b \<Longrightarrow> ((a AND m) OR (x AND NOT m)) AND b = a AND b"
  by (auto simp: bit_eq_iff bit_simps)

lemma setfl_word_outside:
  "(b::int) AND m = 0 \<Longrightarrow> ((a AND m) OR (x AND NOT m)) AND b = x AND b"
  by (auto simp: bit_eq_iff bit_simps)

lemma setfl_word_rest:
  "((a AND m) OR (x AND NOT m)) AND NOT (m OR (c::int)) = x AND NOT (m OR c)"
  by (auto simp: bit_eq_iff bit_simps)

lemma fasync_word_bit: "(a::int) AND c = 0 \<Longrightarrow> ((a AND c) OR (x AND NOT c)) AND c = 0"
  by (auto simp: bit_eq_iff bit_simps)

lemma fasync_word_rest:
  "(((a::int) AND c) OR (x AND NOT c)) AND NOT (m OR c) = x AND NOT (m OR c)"
  by (auto simp: bit_eq_iff bit_simps)

lemma flag_facts:
  "O_NONBLOCK AND SETFL_MASK = O_NONBLOCK"
  "(O_APPEND OR O_DIRECT OR O_NOATIME) AND SETFL_MASK = O_APPEND OR O_DIRECT OR O_NOATIME"
  "O_NONBLOCK AND (O_APPEND OR O_DIRECT OR O_NOATIME) = 0"
  "O_NONBLOCK AND O_APPEND = 0" "O_NONBLOCK AND O_NOATIME = 0" "O_NONBLOCK AND O_DIRECT = 0"
  "O_NONBLOCK AND FASYNC = 0" "FASYNC AND SETFL_MASK = 0"
  by (simp_all add: flag_defs)

text \<open>What \<open>setfl\<close> does with the flag word O\_NONBLOCK alone.\<close>

lemma fasync_change_O_NONBLOCK:
  "fasync_change f O_NONBLOCK =
     (if f_flags f AND FASYNC \<noteq> 0
      then (case fasync f of
              None \<Rightarrow> Inr (f_flags f)
            | Some h \<Rightarrow> (case h False of
                           Some e \<Rightarrow> Inl e
                         | None \<Rightarrow> Inr ((O_NONBLOCK AND FASYNC) OR (f_flags f AND NOT FASYNC))))
      else Inr (f_flags f))"
  by (simp add: fasync_change_def xor_outside[OF flag_facts(7)] flag_facts(7)
        cong: option.case_cong)

lemma setfl_O_NONBLOCK:
  "setfl f O_NONBLOCK =
     (if f_flags f AND O_APPEND \<noteq> 0 \<and> append_only f then Inl EPERM
      else (case check_flags f O_NONBLOCK of
              Some e \<Rightarrow> Inl e
            | None \<Rightarrow>
                (case fasync_change f O_NONBLOCK of
                   Inl e \<Rightarrow> Inl e
                 | Inr fl \<Rightarrow>
                     Inr (f\<lparr>f_flags := (O_NONBLOCK AND SETFL_MASK) OR (fl AND NOT SETFL_MASK)\<rparr>))))"
  by (simp add: setfl_def xor_outside[OF flag_facts(4)] flag_facts(5,6))

lemma set_blocking_False_open:
  assumes "descriptors k d = Some i" and "descriptions k i = Some f"
  shows "if (f_flags f AND O_APPEND \<noteq> 0 \<and> append_only f)
            \<or> check_flags f O_NONBLOCK \<noteq> None
            \<or> (f_flags f AND FASYNC \<noteq> 0 \<and> (\<exists>h e. fasync f = Some h \<and> h False = Some e))
         then set_blocking k d False = Inl IOError
         else \<exists>fl'. set_blocking k d False
                      = Inr (k\<lparr>descriptions := (descriptions k)(i \<mapsto> f\<lparr>f_flags := fl'\<rparr>)\<rparr>)
                \<and> fl' AND O_NONBLOCK = O_NONBLOCK
                \<and> fl' AND (O_APPEND OR O_DIRECT OR O_NOATIME) = 0
                \<and> fl' AND FASYNC = (if fasync f = None then f_flags f AND FASYNC else 0)
                \<and> fl' AND NOT (SETFL_MASK OR FASYNC) = f_flags f AND NOT (SETFL_MASK OR FASYNC)"
proof -
  let ?R = "(f_flags f AND O_APPEND \<noteq> 0 \<and> append_only f)
            \<or> check_flags f O_NONBLOCK \<noteq> None
            \<or> (f_flags f AND FASYNC \<noteq> 0 \<and> (\<exists>h e. fasync f = Some h \<and> h False = Some e))"
  have sb: "set_blocking k d False =
              (case setfl f O_NONBLOCK of
                 Inl e \<Rightarrow> Inl IOError
               | Inr f' \<Rightarrow> Inr (k\<lparr>descriptions := (descriptions k)(i \<mapsto> f')\<rparr>))"
    using assms by (simp add: set_blocking_def fcntl_setfl_def)
  show ?thesis
  proof (cases ?R)
    case True
    then have "\<exists>e. setfl f O_NONBLOCK = Inl e"
      by (auto simp: setfl_O_NONBLOCK fasync_change_O_NONBLOCK split: option.splits)
    then show ?thesis using True sb by auto
  next
    case False
    define fl0 where "fl0 = (if f_flags f AND FASYNC \<noteq> 0 \<and> fasync f \<noteq> None
                             then (O_NONBLOCK AND FASYNC) OR (f_flags f AND NOT FASYNC)
                             else f_flags f)"
    define fl' where "fl' = (O_NONBLOCK AND SETFL_MASK) OR (fl0 AND NOT SETFL_MASK)"
    have fc: "fasync_change f O_NONBLOCK = Inr fl0"
      using False by (auto simp: fasync_change_O_NONBLOCK fl0_def split: option.splits)
    have "setfl f O_NONBLOCK = Inr (f\<lparr>f_flags := fl'\<rparr>)"
      using False fc by (auto simp: setfl_O_NONBLOCK fl'_def split: option.splits)
    then have 1: "set_blocking k d False
                    = Inr (k\<lparr>descriptions := (descriptions k)(i \<mapsto> f\<lparr>f_flags := fl'\<rparr>)\<rparr>)"
      using sb by simp
    have 2: "fl' AND O_NONBLOCK = O_NONBLOCK"
      unfolding fl'_def using setfl_word_inside[OF flag_facts(1)] by simp
    have 3: "fl' AND (O_APPEND OR O_DIRECT OR O_NOATIME) = 0"
      unfolding fl'_def using setfl_word_inside[OF flag_facts(2), of O_NONBLOCK fl0]
      by (simp add: flag_facts(3))
    have "fl' AND FASYNC = fl0 AND FASYNC"
      unfolding fl'_def by (rule setfl_word_outside[OF flag_facts(8)])
    also have "\<dots> = (if fasync f = None then f_flags f AND FASYNC else 0)"
      using fasync_word_bit[OF flag_facts(7), of "f_flags f"] by (auto simp: fl0_def)
    finally have 4: "fl' AND FASYNC = (if fasync f = None then f_flags f AND FASYNC else 0)" .
    have "fl' AND NOT (SETFL_MASK OR FASYNC) = fl0 AND NOT (SETFL_MASK OR FASYNC)"
      unfolding fl'_def by (rule setfl_word_rest)
    also have "\<dots> = f_flags f AND NOT (SETFL_MASK OR FASYNC)"
      using fasync_word_rest[of O_NONBLOCK FASYNC "f_flags f" SETFL_MASK]
      by (auto simp: fl0_def)
    finally have 5: "fl' AND NOT (SETFL_MASK OR FASYNC)
                       = f_flags f AND NOT (SETFL_MASK OR FASYNC)" .
    show ?thesis using False 1 2 3 4 5 by (simp only: if_False) blast
  qed
qed

text \<open>
  With \<open>block\<close> true the flag word is the complement of O\_NONBLOCK, which asks for every
  other flag, O\_DIRECT among them: on an open file that is neither a FIFO nor capable of
  direct I/O the call raises, whatever the flags were, and changes nothing.
\<close>

lemma set_blocking_True_without_direct_io:
  assumes "descriptors k d = Some i" and "descriptions k i = Some f"
      and "\<not> is_fifo f" and "\<not> can_odirect f"
  shows "set_blocking k d True = Inl IOError"
proof -
  have "NOT O_NONBLOCK AND O_DIRECT \<noteq> 0" by (simp add: flag_defs)
  then have "\<exists>e. setfl f (NOT O_NONBLOCK) = Inl e"
    using assms(3,4) by (simp add: setfl_def)
  then show ?thesis using assms(1,2) by (auto simp: set_blocking_def fcntl_setfl_def)
qed

text \<open>
  C5 (as amended): \<open>set_blocking(fd, False)\<close> passes O\_NONBLOCK alone as the flag word of
  F\_SETFL, without reading the current flags. On a descriptor that is not open it raises
  IOError. On an open one it raises IOError and changes nothing when the system refuses
  the flag word: O\_APPEND is set on an append-only file, the file's own check refuses, or
  O\_ASYNC is set and the file's handler fails to switch it off. Otherwise it returns, and
  afterwards the open file has O\_NONBLOCK set, O\_APPEND, O\_DIRECT and O\_NOATIME cleared,
  O\_ASYNC cleared where the file has a handler for it and as it was where it has none,
  and every other flag as it was; nothing else in the state changes. What
  \<open>set_blocking(fd, True)\<close> leaves behind is no part of this statement.
\<close>

theorem set_blocking_sets_O_NONBLOCK:
  "(descriptors k d = None \<longrightarrow> set_blocking k d False = Inl IOError)
   \<and> (\<forall>i f. descriptors k d = Some i \<longrightarrow> descriptions k i = Some f \<longrightarrow>
        (if (f_flags f AND O_APPEND \<noteq> 0 \<and> append_only f)
            \<or> check_flags f O_NONBLOCK \<noteq> None
            \<or> (f_flags f AND FASYNC \<noteq> 0 \<and> (\<exists>h e. fasync f = Some h \<and> h False = Some e))
         then set_blocking k d False = Inl IOError
         else \<exists>fl'. set_blocking k d False
                      = Inr (k\<lparr>descriptions := (descriptions k)(i \<mapsto> f\<lparr>f_flags := fl'\<rparr>)\<rparr>)
                \<and> fl' AND O_NONBLOCK = O_NONBLOCK
                \<and> fl' AND (O_APPEND OR O_DIRECT OR O_NOATIME) = 0
                \<and> fl' AND FASYNC = (if fasync f = None then f_flags f AND FASYNC else 0)
                \<and> fl' AND NOT (SETFL_MASK OR FASYNC)
                    = f_flags f AND NOT (SETFL_MASK OR FASYNC)))"
proof (intro conjI allI impI)
  assume "descriptors k d = None"
  then show "set_blocking k d False = Inl IOError"
    by (simp add: set_blocking_def fcntl_setfl_def)
next
  fix i f
  assume "descriptors k d = Some i" and "descriptions k i = Some f"
  then show "if (f_flags f AND O_APPEND \<noteq> 0 \<and> append_only f)
            \<or> check_flags f O_NONBLOCK \<noteq> None
            \<or> (f_flags f AND FASYNC \<noteq> 0 \<and> (\<exists>h e. fasync f = Some h \<and> h False = Some e))
         then set_blocking k d False = Inl IOError
         else \<exists>fl'. set_blocking k d False
                      = Inr (k\<lparr>descriptions := (descriptions k)(i \<mapsto> f\<lparr>f_flags := fl'\<rparr>)\<rparr>)
                \<and> fl' AND O_NONBLOCK = O_NONBLOCK
                \<and> fl' AND (O_APPEND OR O_DIRECT OR O_NOATIME) = 0
                \<and> fl' AND FASYNC = (if fasync f = None then f_flags f AND FASYNC else 0)
                \<and> fl' AND NOT (SETFL_MASK OR FASYNC)
                    = f_flags f AND NOT (SETFL_MASK OR FASYNC)"
    by (rule set_blocking_False_open)
qed

theorem set_blocking_sets_O_NONBLOCK_witness:
  "(\<exists>fl'. set_blocking (shared_file (regular_file 1025)) 3 False
            = Inr ((shared_file (regular_file 1025))
                     \<lparr>descriptions := (descriptions (shared_file (regular_file 1025)))
                                         (0 \<mapsto> (regular_file 1025)\<lparr>f_flags := fl'\<rparr>)\<rparr>)
         \<and> fl' AND O_NONBLOCK = O_NONBLOCK
         \<and> fl' AND (O_APPEND OR O_DIRECT OR O_NOATIME) = 0
         \<and> fl' AND FASYNC = 1025 AND FASYNC
         \<and> fl' AND NOT (SETFL_MASK OR FASYNC) = 1025 AND NOT (SETFL_MASK OR FASYNC))
   \<and> set_blocking (shared_file ((regular_file 1025)\<lparr>append_only := True\<rparr>)) 3 False
       = Inl IOError
   \<and> set_blocking (shared_file (regular_file 1025)) 5 False = Inl IOError"
proof -
  have d: "descriptors (shared_file g) 3 = Some 0" "descriptions (shared_file g) 0 = Some g"
          "descriptors (shared_file g) 5 = None" for g
    by (simp_all add: shared_file_def)
  have a: "1025 AND O_APPEND \<noteq> 0" "(1025::int) AND FASYNC = 0"
    by (simp_all add: flag_defs)
  show ?thesis
    using set_blocking_sets_O_NONBLOCK[of "shared_file (regular_file 1025)" 3,
            THEN conjunct2, rule_format, OF d(1,2)]
          set_blocking_sets_O_NONBLOCK[of "shared_file ((regular_file 1025)\<lparr>append_only := True\<rparr>)" 3,
            THEN conjunct2, rule_format, OF d(1,2)]
          set_blocking_sets_O_NONBLOCK[of "shared_file (regular_file 1025)" 5,
            THEN conjunct1, rule_format, OF d(3)]
    by (simp add: regular_file_def a)
qed

text \<open>
  C5 as stated fails in both directions. A regular file open with O\_WRONLY and O\_APPEND
  (flag word 1025) has lost O\_APPEND after \<open>set_blocking(fd, False)\<close>. On the end of a
  pseudo-terminal open with O\_RDWR and O\_NONBLOCK (flag word 2050)
  \<open>set_blocking(fd, True)\<close> raises IOError and O\_NONBLOCK stays set.
\<close>

theorem set_blocking_other_flags_counterexample:
  "set_blocking (shared_file (regular_file 1025)) 3 False
     = Inr (shared_file (regular_file 2049))
   \<and> (2049::int) AND O_APPEND \<noteq> 1025 AND O_APPEND
   \<and> set_blocking (shared_file (pty_end 2050)) 3 True = Inl IOError
   \<and> (2050::int) AND O_NONBLOCK \<noteq> 0"
  by (simp add: set_blocking_def fcntl_setfl_def setfl_def fasync_change_def flag_defs
        shared_file_def regular_file_def pty_end_def)

subsection \<open>SignalEvent\<close>

lemma deliver_idem: "deliver p = Some p' \<Longrightarrow> deliver p' = Some p'"
  by (auto simp: deliver_def sighandler_def split: option.splits)

lemma sig_run_deliveries:
  "deliver p = Some p' \<Longrightarrow> sig_run p (replicate (Suc n) Deliver) = Some p'"
proof (induction n arbitrary: p)
  case 0
  then show ?case by simp
next
  case (Suc n)
  from Suc.prems have "deliver p' = Some p'" by (rule deliver_idem)
  then have "sig_run p' (replicate (Suc n) Deliver) = Some p'" by (rule Suc.IH)
  with Suc.prems show ?case by simp
qed

lemma nth_upd: "xs[k := v] ! i = (if k = i \<and> k < length xs then v else xs ! i)"
  by (cases "k = i") (auto simp: list_update_beyond)

text \<open>
  C8: a new SignalEvent starts cleared and its handler is the installed one. For an
  existing instance, the flag goes from false to true only when the signal is delivered
  while that instance's handler is installed, and from true to false only by its own
  \<open>clear\<close>; \<open>isSet\<close> changes nothing; any positive number of deliveries leaves the
  same state as one delivery, and one \<open>clear\<close> after them resets the flag.
\<close>

theorem SignalEvent_flag_transitions:
  assumes "i < length (sig_values p)"
  shows "isSet (snd (SignalEvent_init p)) (fst (SignalEvent_init p)) = False
       \<and> handler (fst (SignalEvent_init p)) = Some (snd (SignalEvent_init p))
       \<and> (sig_step p e = Some p' \<and> \<not> isSet i p \<and> isSet i p'
            \<longrightarrow> e = Deliver \<and> handler p = Some i)
       \<and> (sig_step p e = Some p' \<and> isSet i p \<and> \<not> isSet i p' \<longrightarrow> e = Clear i)
       \<and> sig_step p (IsSet i) = Some p
       \<and> (handler p = Some i
            \<longrightarrow> sig_run p (replicate (Suc n) Deliver) = sig_run p [Deliver]
              \<and> (\<exists>p1. sig_run p (replicate (Suc n) Deliver) = Some p1 \<and> isSet i p1
                      \<and> \<not> isSet i (clear i p1)))"
proof -
  have a: "isSet (snd (SignalEvent_init p)) (fst (SignalEvent_init p)) = False"
    by (simp add: SignalEvent_init_def isSet_def)
  have b: "handler (fst (SignalEvent_init p)) = Some (snd (SignalEvent_init p))"
    by (simp add: SignalEvent_init_def)
  have c: "sig_step p e = Some p' \<and> \<not> isSet i p \<and> isSet i p'
            \<longrightarrow> e = Deliver \<and> handler p = Some i"
    using assms
    by (cases e)
       (auto simp: SignalEvent_init_def isSet_def deliver_def sighandler_def clear_def
             nth_append nth_upd split: option.splits if_splits)
  have d: "sig_step p e = Some p' \<and> isSet i p \<and> \<not> isSet i p' \<longrightarrow> e = Clear i"
    using assms
    by (cases e)
       (auto simp: SignalEvent_init_def isSet_def deliver_def sighandler_def clear_def
             nth_append nth_upd split: option.splits if_splits)
  have e: "sig_step p (IsSet i) = Some p" by simp
  have f: "handler p = Some i
            \<longrightarrow> sig_run p (replicate (Suc n) Deliver) = sig_run p [Deliver]
              \<and> (\<exists>p1. sig_run p (replicate (Suc n) Deliver) = Some p1 \<and> isSet i p1
                      \<and> \<not> isSet i (clear i p1))"
  proof
    assume h: "handler p = Some i"
    then have dl: "deliver p = Some (sighandler i p)" by (simp add: deliver_def)
    have r: "sig_run p (replicate (Suc n) Deliver) = Some (sighandler i p)"
      using dl by (rule sig_run_deliveries)
    have s: "sig_run p [Deliver] = Some (sighandler i p)" using dl by simp
    have t: "isSet i (sighandler i p)" using assms by (simp add: isSet_def sighandler_def)
    have u: "\<not> isSet i (clear i (sighandler i p))"
      using assms by (simp add: isSet_def sighandler_def clear_def)
    from r s t u
    show "sig_run p (replicate (Suc n) Deliver) = sig_run p [Deliver]
              \<and> (\<exists>p1. sig_run p (replicate (Suc n) Deliver) = Some p1 \<and> isSet i p1
                      \<and> \<not> isSet i (clear i p1))"
      by simp
  qed
  from a b c d e f show ?thesis by blast
qed

theorem SignalEvent_flag_transitions_witness:
  "0 < length (sig_values (fst (SignalEvent_init \<lparr>sig_values = [], handler = None\<rparr>)))
   \<and> sig_step \<lparr>sig_values = [False], handler = Some 0\<rparr> Deliver
       = Some \<lparr>sig_values = [True], handler = Some 0\<rparr>
   \<and> \<not> isSet 0 \<lparr>sig_values = [False], handler = Some 0\<rparr>
   \<and> isSet 0 \<lparr>sig_values = [True], handler = Some 0\<rparr>
   \<and> sig_step \<lparr>sig_values = [True], handler = Some 0\<rparr> (Clear 0)
       = Some \<lparr>sig_values = [False], handler = Some 0\<rparr>
   \<and> sig_run \<lparr>sig_values = [False], handler = Some 0\<rparr> (replicate (Suc 2) Deliver)
       = sig_run \<lparr>sig_values = [False], handler = Some 0\<rparr> [Deliver]
   \<and> (\<exists>p1. sig_run \<lparr>sig_values = [False], handler = Some 0\<rparr> (replicate (Suc 2) Deliver)
              = Some p1 \<and> isSet 0 p1 \<and> \<not> isSet 0 (clear 0 p1))"
proof -
  have h: "0 < length (sig_values \<lparr>sig_values = [False], handler = Some 0\<rparr>)" by simp
  have h': "0 < length (sig_values \<lparr>sig_values = [True], handler = Some 0\<rparr>)" by simp
  show ?thesis
    using SignalEvent_flag_transitions
            [OF h, of Deliver "\<lparr>sig_values = [True], handler = Some 0\<rparr>" 2]
          SignalEvent_flag_transitions
            [OF h', of "Clear 0" "\<lparr>sig_values = [False], handler = Some 0\<rparr>" 0]
    by (simp add: SignalEvent_init_def isSet_def deliver_def sighandler_def clear_def)
qed

subsection \<open>System calls\<close>

lemma lowest_free_None: "lowest_free s = Some n \<Longrightarrow> fds s n = None"
  by (auto simp: lowest_free_def find_Some_iff)

lemma then_do_cases [consumes 1, case_names stop go]:
  assumes "then_do m f s = (res, s')"
  obtains (stop) res0 where "m s = (res0, s')" "\<forall>a. res0 \<noteq> Returns a"
            "\<forall>a. res \<noteq> Returns a" "\<forall>e. (res = Raises e) = (res0 = Raises e)"
        | (go) a s1 where "m s = (Returns a, s1)" "f a s1 = (res, s')"
  using assms by (auto simp: then_do_def split: prod.splits outcome.splits)

lemma os_dup_cases:
  "os_dup old s = (res, s') \<Longrightarrow>
     trace s' = trace s @ [SysDup old] \<and> next_ofd s' = next_ofd s
     \<and> children s' = children s \<and> heap s' = heap s \<and> next_pid s' = next_pid s \<and>
     ((res = Raises OSError \<and> fds s' = fds s)
      \<or> (\<exists>n d. res = Returns n \<and> fds s old = Some d \<and> fds s n = None
            \<and> fds s' = (fds s)(n \<mapsto> d)))"
  by (auto simp: os_dup_def log_def Let_def lowest_free_def find_Some_iff
           split: option.splits)

lemma open_pair_cases:
  "open_pair call s = (res, s') \<Longrightarrow>
     trace s' = trace s @ [call]
     \<and> children s' = children s \<and> heap s' = heap s \<and> next_pid s' = next_pid s \<and>
     ((res = Raises OSError \<and> fds s' = fds s \<and> next_ofd s' = next_ofd s)
      \<or> (\<exists>r w. res = Returns (r, w) \<and> fds s r = None \<and> fds s w = None \<and> r \<noteq> w
            \<and> fds s' = (fds s)(r \<mapsto> next_ofd s, w \<mapsto> Suc (next_ofd s))
            \<and> next_ofd s' = next_ofd s + 2))"
  apply (auto simp: open_pair_def log_def Let_def lowest_free_def split: option.splits)
     apply (auto simp: find_Some_iff split: if_splits)
  done

lemma chan_cases:
  "(if usepty then os_openpty else os_pipe) s = (res, s') \<Longrightarrow>
     trace s' = trace s @ [if usepty then SysOpenpty else SysPipe]
     \<and> children s' = children s \<and> heap s' = heap s \<and> next_pid s' = next_pid s \<and>
     ((res = Raises OSError \<and> fds s' = fds s \<and> next_ofd s' = next_ofd s)
      \<or> (\<exists>r w. res = Returns (r, w) \<and> fds s r = None \<and> fds s w = None \<and> r \<noteq> w
            \<and> fds s' = (fds s)(r \<mapsto> next_ofd s, w \<mapsto> Suc (next_ofd s))
            \<and> next_ofd s' = next_ofd s + 2))"
  by (cases usepty) (auto simp: os_openpty_def os_pipe_def dest!: open_pair_cases)

lemma os_dup2_cases:
  "os_dup2 old new s = (res, s') \<Longrightarrow>
     trace s' = trace s @ [SysDup2 old new] \<and> next_ofd s' = next_ofd s
     \<and> children s' = children s \<and> heap s' = heap s \<and> next_pid s' = next_pid s
     \<and> stream_data s' = stream_data s \<and> will_exit s' = will_exit s \<and>
     ((res = Raises OSError \<and> fds s' = fds s)
      \<or> (\<exists>d. res = Returns () \<and> fds s old = Some d \<and> fds s' = (fds s)(new \<mapsto> d)))"
  by (auto simp: os_dup2_def log_def Let_def split: option.splits)

lemma os_close_cases:
  "os_close n s = (res, s') \<Longrightarrow>
     trace s' = trace s @ [SysClose n] \<and> next_ofd s' = next_ofd s
     \<and> children s' = children s \<and> heap s' = heap s \<and> next_pid s' = next_pid s
     \<and> stream_data s' = stream_data s \<and> will_exit s' = will_exit s \<and>
     ((res = Raises OSError \<and> fds s' = fds s)
      \<or> (res = Returns () \<and> fds s n \<noteq> None \<and> fds s' = (fds s)(n := None)))"
  by (auto simp: os_close_def log_def Let_def split: option.splits)

lemma Pipe_init_cases:
  "Pipe_init s = (res, s') \<Longrightarrow>
     trace s' = trace s @ [SysPipe]
     \<and> children s' = children s \<and> heap s' = heap s \<and> next_pid s' = next_pid s \<and>
     ((res = Raises OSError \<and> fds s' = fds s \<and> next_ofd s' = next_ofd s)
      \<or> (\<exists>p. res = Returns p \<and> fds s (pipe_r p) = None \<and> fds s (pipe_w p) = None
            \<and> pipe_r p \<noteq> pipe_w p
            \<and> fds s' = (fds s)(pipe_r p \<mapsto> next_ofd s, pipe_w p \<mapsto> Suc (next_ofd s))
            \<and> next_ofd s' = next_ofd s + 2))"
  by (auto simp: Pipe_init_def os_pipe_def then_do_def ret_def
           split: prod.splits outcome.splits dest!: open_pair_cases)

lemma SignalEvent_new_cases:
  "SignalEvent_new s = (res, s') \<Longrightarrow>
     trace s' = trace s @ [SysSignal] \<and> fds s' = fds s \<and> next_ofd s' = next_ofd s
     \<and> children s' = children s \<and> heap s' = heap s \<and> next_pid s' = next_pid s
     \<and> res = Returns (length (sig_values (proc s)))"
  by (auto simp: SignalEvent_new_def log_def Let_def SignalEvent_init_def)

lemma os_fork_cases:
  "os_fork s = (res, s') \<Longrightarrow>
     trace s' = trace s @ [SysFork] \<and> fds s' = fds s \<and> next_ofd s' = next_ofd s
     \<and> heap s' = heap s \<and>
     ((res = Raises OSError \<and> children s' = children s)
      \<or> (res = Returns (next_pid s) \<and> children s' = next_pid s # children s))"
  by (auto simp: os_fork_def log_def Let_def split: if_splits)

lemma tick_frame:
  "tick s = Some s' \<Longrightarrow> fds s' = fds s \<and> trace s' = trace s \<and> children s' = children s
     \<and> heap s' = heap s \<and> next_ofd s' = next_ofd s"
  by (auto simp: tick_def split: option.splits nat.splits)

lemma busy_wait_frame:
  "busy_wait self s = Some s' \<Longrightarrow> fds s' = fds s \<and> trace s' = trace s
     \<and> children s' = children s \<and> heap s' = heap s \<and> next_ofd s' = next_ofd s"
proof (induction rule: busy_wait.raw_induct[rotated, consumes 1])
  case (1 bw self s s')
  show ?case
  proof (cases "isSet self (proc s)")
    case True
    with 1(2) show ?thesis by simp
  next
    case False
    with 1(2) obtain s1 where t: "tick s = Some s1" and b: "bw self s1 = Some s'"
      by (auto simp: bind_eq_Some_conv)
    from 1(1)[OF b] tick_frame[OF t] show ?thesis by simp
  qed
qed

lemma wait_isSet_cases:
  "wait_isSet self s = (res, s') \<Longrightarrow>
     fds s' = fds s \<and> trace s' = trace s \<and> children s' = children s \<and> heap s' = heap s
     \<and> next_ofd s' = next_ofd s \<and> (res = NoReturn \<or> res = Returns ())"
  by (auto simp: wait_isSet_def split: option.splits dest: busy_wait_frame)

lemma then_do_Returns:
  assumes "then_do m f s = (Returns b, s')"
  obtains a s1 where "m s = (Returns a, s1)" "f a s1 = (Returns b, s')"
  using assms by (auto simp: then_do_def split: prod.splits outcome.splits)

lemma then_do_propagates:
  "m s = (Raises e, s1) \<Longrightarrow> then_do m f s = (Raises e, s1)"
  by (simp add: then_do_def)

lemma flush_Returns:
  "flush n s = (res, s') \<Longrightarrow>
     res = Returns () \<and> s' = s\<lparr>trace := trace s @ [SysFlush n]\<rparr>"
  by (auto simp: flush_def log_def)

lemmas os_eval =
  UnitedStdTrap_init_def UnitedStdTrap_close_def Splicer_init_def Splicer_close_def splice_def
  then_do_def ret_def log_def os_dup_def os_pipe_def os_openpty_def open_pair_def
  os_dup2_def os_close_def Pipe_init_def SignalEvent_new_def SignalEvent_init_def os_fork_def
  wait_isSet_def busy_wait.simps tick_def deliver_def sighandler_def isSet_def
  os_kill_def os_waitpid_def file_read_def SignalEvent_send_def flush_def StringIO_def
  lowest_free_def Let_def upt_rec

subsection \<open>Splicer start\<close>

text \<open>
  What \<open>_splice\<close> has done to the descriptor table when it raises and when it returns.
\<close>

lemma splice_effect:
  assumes A: "splice fd0 usepty transparent files s = (res, s')"
  shows "(\<forall>e. res = Raises e \<longrightarrow>
            dom (fds s) \<subseteq> dom (fds s')
            \<and> (\<forall>n s1. os_dup fd0 s = (Returns n, s1)
                  \<longrightarrow> fds s n = None \<and> fds s' n = fds s fd0 \<and> fds s' n \<noteq> None))
       \<and> (\<forall>pid reader orig. res = Returns (pid, reader, orig) \<longrightarrow>
            (\<exists>d r w pw.
               fds s fd0 = Some d \<and> fds s orig = None \<and> fds s reader = None \<and> orig \<noteq> reader
               \<and> fds s' = (fds s)(orig \<mapsto> d, fd0 \<mapsto> Suc (next_ofd s), reader \<mapsto> next_ofd s + 2)
               \<and> trace s' = trace s @
                    [SysDup fd0, if usepty then SysOpenpty else SysPipe, SysDup2 w fd0,
                     SysClose w, SysPipe, SysSignal, SysFork, SysClose pw, SysClose r]
               \<and> children s' = pid # children s \<and> pid = next_pid s \<and> heap s' = heap s))"
  (is "?R \<and> ?Q")
  using A unfolding splice_def
proof (cases rule: then_do_cases)
  case (stop res0)
  from os_dup_cases[OF stop(1)] stop show ?thesis by auto
next
  case (go orig s1)
  from os_dup_cases[OF go(1)] obtain d where
    s1: "trace s1 = trace s @ [SysDup fd0]" "next_ofd s1 = next_ofd s"
        "children s1 = children s" "heap s1 = heap s" "next_pid s1 = next_pid s"
        "fds s fd0 = Some d" "fds s orig = None" "fds s1 = (fds s)(orig \<mapsto> d)"
    by auto
  have od: "orig \<noteq> fd0" using s1 by auto
  from go(2) show ?thesis
  proof (cases rule: then_do_cases)
    case (stop res0)
    from chan_cases[OF stop(1)] stop(2,3,4) go(1) s1 show ?thesis by auto
  next
    case (go rw s2)
    obtain r w where rw: "rw = (r, w)" by (cases rw)
    from chan_cases[OF go(1)] rw have
      s2: "trace s2 = trace s1 @ [if usepty then SysOpenpty else SysPipe]"
          "children s2 = children s1" "heap s2 = heap s1" "next_pid s2 = next_pid s1"
          "fds s1 r = None" "fds s1 w = None" "r \<noteq> w"
          "fds s2 = (fds s1)(r \<mapsto> next_ofd s1, w \<mapsto> Suc (next_ofd s1))"
          "next_ofd s2 = next_ofd s1 + 2"
      by auto
    have fr: "fds s r = None" "fds s w = None" "r \<noteq> orig" "w \<noteq> orig" "r \<noteq> fd0" "w \<noteq> fd0"
      using s1 s2 by (auto split: if_splits)
    from go(2) rw have B: "then_do (os_dup2 w fd0) (\<lambda>_.
      then_do (os_close w) (\<lambda>_.
      then_do Pipe_init (\<lambda>outpipe.
      then_do SignalEvent_new (\<lambda>signal_event.
      then_do os_fork (\<lambda>splicer_pid.
        if splicer_pid \<noteq> 0 then
          then_do (os_close (pipe_w outpipe)) (\<lambda>_.
          then_do (os_close r) (\<lambda>_.
          then_do (wait_isSet signal_event) (\<lambda>_.
          ret (splicer_pid, pipe_r outpipe, orig))))
        else (\<lambda>s. (NoReturn, s))))))) s2 = (res, s')" by simp
    from B show ?thesis
    proof (cases rule: then_do_cases)
      case (stop res0)
      from os_dup2_cases[OF stop(1)] stop(2,3,4) \<open>os_dup fd0 s = (Returns orig, s1)\<close> s1 s2 fr
      show ?thesis by (auto simp: dom_def)
    next
      case (go u3 s3)
      from os_dup2_cases[OF go(1)] s2 have
        s3: "trace s3 = trace s2 @ [SysDup2 w fd0]" "next_ofd s3 = next_ofd s2"
            "children s3 = children s2" "heap s3 = heap s2" "next_pid s3 = next_pid s2"
            "fds s3 = (fds s2)(fd0 \<mapsto> Suc (next_ofd s1))"
        by auto
      from go(2) show ?thesis
      proof (cases rule: then_do_cases)
        case (stop res0)
        from os_close_cases[OF stop(1)] stop(2,3,4) \<open>os_dup fd0 s = (Returns orig, s1)\<close> s1 s2 s3 fr
        show ?thesis by (auto simp: dom_def)
      next
        case (go u4 s4)
        from os_close_cases[OF go(1)] have
          s4: "trace s4 = trace s3 @ [SysClose w]" "next_ofd s4 = next_ofd s3"
              "children s4 = children s3" "heap s4 = heap s3" "next_pid s4 = next_pid s3"
              "fds s4 = (fds s3)(w := None)"
          by auto
        have f4: "fds s4 = (fds s)(orig \<mapsto> d, r \<mapsto> next_ofd s, fd0 \<mapsto> Suc (next_ofd s))"
          using s1 s2 s3 s4 fr od by (auto simp: fun_eq_iff)
        from go(2) show ?thesis
        proof (cases rule: then_do_cases)
          case (stop res0)
          from Pipe_init_cases[OF stop(1)] stop(2,3,4) \<open>os_dup fd0 s = (Returns orig, s1)\<close> s1 f4 fr od
          show ?thesis by (auto simp: dom_def)
        next
          case (go outpipe s5)
          from Pipe_init_cases[OF go(1)] have
            s5: "trace s5 = trace s4 @ [SysPipe]"
                "children s5 = children s4" "heap s5 = heap s4" "next_pid s5 = next_pid s4"
                "fds s4 (pipe_r outpipe) = None" "fds s4 (pipe_w outpipe) = None"
                "pipe_r outpipe \<noteq> pipe_w outpipe"
                "fds s5 = (fds s4)(pipe_r outpipe \<mapsto> next_ofd s4, pipe_w outpipe \<mapsto> Suc (next_ofd s4))"
            by auto
          have fp: "fds s (pipe_r outpipe) = None" "fds s (pipe_w outpipe) = None"
                   "pipe_r outpipe \<noteq> orig" "pipe_w outpipe \<noteq> orig"
                   "pipe_r outpipe \<noteq> r" "pipe_w outpipe \<noteq> r"
                   "pipe_r outpipe \<noteq> fd0" "pipe_w outpipe \<noteq> fd0"
            using s5 f4 by (auto split: if_splits)
          have n4: "next_ofd s4 = next_ofd s + 2" using s1 s2 s3 s4 by simp
          from go(2) show ?thesis
          proof (cases rule: then_do_cases)
            case (stop res0)
            from SignalEvent_new_cases[OF stop(1)] stop(2,3,4) show ?thesis by auto
          next
            case (go signal_event s6)
            from SignalEvent_new_cases[OF go(1)] have
              s6: "trace s6 = trace s5 @ [SysSignal]" "fds s6 = fds s5"
                  "children s6 = children s5" "heap s6 = heap s5" "next_pid s6 = next_pid s5"
              by auto
            from go(2) show ?thesis
            proof (cases rule: then_do_cases)
              case (stop res0)
              from os_fork_cases[OF stop(1)] stop(2,3,4) \<open>os_dup fd0 s = (Returns orig, s1)\<close>
                s1 f4 s5 s6 fr od fp
              show ?thesis by (auto simp: dom_def)
            next
              case (go splicer_pid s7)
              from os_fork_cases[OF go(1)] have
                s7: "trace s7 = trace s6 @ [SysFork]" "fds s7 = fds s6" "heap s7 = heap s6"
                    "splicer_pid = next_pid s6" "children s7 = next_pid s6 # children s6"
                by auto
              show ?thesis
              proof (cases "splicer_pid \<noteq> 0")
                case False
                with go(2) show ?thesis by auto
              next
                case True
                with go(2) have C: "then_do (os_close (pipe_w outpipe)) (\<lambda>_.
                    then_do (os_close r) (\<lambda>_.
                    then_do (wait_isSet signal_event) (\<lambda>_.
                    ret (splicer_pid, pipe_r outpipe, orig)))) s7 = (res, s')" by simp
                from C show ?thesis
                proof (cases rule: then_do_cases)
                  case (stop res0)
                  from os_close_cases[OF stop(1)] stop(2,3,4) \<open>os_dup fd0 s = (Returns orig, s1)\<close>
                    s1 f4 s5 s6 s7 fr od fp
                  show ?thesis by (auto simp: dom_def)
                next
                  case (go u8 s8)
                  from os_close_cases[OF go(1)] have
                    s8: "trace s8 = trace s7 @ [SysClose (pipe_w outpipe)]"
                        "children s8 = children s7" "heap s8 = heap s7"
                        "fds s8 = (fds s7)(pipe_w outpipe := None)"
                    by auto
                  have f8: "fds s8 = (fds s)(orig \<mapsto> d, r \<mapsto> next_ofd s,
                              fd0 \<mapsto> Suc (next_ofd s), pipe_r outpipe \<mapsto> next_ofd s + 2)"
                    using s5 s6 s7 s8 f4 fp n4 by (auto simp: fun_eq_iff)
                  from go(2) show ?thesis
                  proof (cases rule: then_do_cases)
                    case (stop res0)
                    from os_close_cases[OF stop(1)] stop(2,3,4)
                      \<open>os_dup fd0 s = (Returns orig, s1)\<close> s1 f8 fr od fp
                    show ?thesis by (auto simp: dom_def)
                  next
                    case (go u9 s9)
                    from os_close_cases[OF go(1)] have
                      s9: "trace s9 = trace s8 @ [SysClose r]"
                          "children s9 = children s8" "heap s9 = heap s8"
                          "fds s9 = (fds s8)(r := None)"
                      by auto
                    have f9: "fds s9 = (fds s)(orig \<mapsto> d, fd0 \<mapsto> Suc (next_ofd s),
                                pipe_r outpipe \<mapsto> next_ofd s + 2)"
                      using s9 f8 fr fp od by (auto simp: fun_eq_iff)
                    have t9: "trace s9 = trace s @
                        [SysDup fd0, if usepty then SysOpenpty else SysPipe, SysDup2 w fd0,
                         SysClose w, SysPipe, SysSignal, SysFork, SysClose (pipe_w outpipe),
                         SysClose r]"
                      using s1 s2 s3 s4 s5 s6 s7 s8 s9 by simp
                    have c9: "children s9 = splicer_pid # children s" "heap s9 = heap s"
                             "splicer_pid = next_pid s"
                      using s1 s2 s3 s4 s5 s6 s7 s8 s9 by simp_all
                    from go(2) show ?thesis
                    proof (cases rule: then_do_cases)
                      case (stop res0)
                      from wait_isSet_cases[OF stop(1)] stop(2,3,4) show ?thesis by auto
                    next
                      case (go u10 s10)
                      from wait_isSet_cases[OF go(1)] have
                        s10: "fds s10 = fds s9" "trace s10 = trace s9"
                             "children s10 = children s9" "heap s10 = heap s9"
                        by auto
                      from go(2) have E: "res = Returns (splicer_pid, pipe_r outpipe, orig)"
                        "s' = s10" by (auto simp: ret_def)
                      have "?Q"
                        unfolding E using s10 f9 t9 c9 s1(6,7) fp(1,3) by auto
                      moreover have "?R" using E by simp
                      ultimately show ?thesis by blast
                    qed
                  qed
                qed
              qed
            qed
          qed
        qed
      qed
    qed
  qed
qed

lemma Splicer_init_Returns:
  assumes "Splicer_init fd0 usepty transparent files s = (Returns sp, s')"
  shows "spliced_fd sp = fd0
       \<and> splice fd0 usepty transparent files s
            = (Returns (splicer_pid sp, splicer_reader sp, orig_fd_dup sp), s')"
  using assms
  by (auto simp: Splicer_init_def then_do_def ret_def split: prod.splits outcome.splits)

text \<open>
  C6 (as amended): when a setup step fails, the error reaches the caller of the
  constructor and no Splicer is returned, but nothing is cleaned up: every descriptor
  that was open before is still open, and \<open>orig_fd_dup\<close>, once duplicated, is still open
  on the original target when the error propagates.
\<close>

theorem Splicer_start_failure:
  assumes "splice fd0 usepty transparent files s = (Raises e, s')"
  shows "Splicer_init fd0 usepty transparent files s = (Raises e, s')
       \<and> dom (fds s) \<subseteq> dom (fds s')
       \<and> (\<forall>n s1. os_dup fd0 s = (Returns n, s1)
             \<longrightarrow> fds s n = None \<and> fds s' n = fds s fd0 \<and> fds s' n \<noteq> None)"
proof -
  have "Splicer_init fd0 usepty transparent files s = (Raises e, s')"
    using assms by (simp add: Splicer_init_def then_do_def)
  with splice_effect[OF assms] show ?thesis by blast
qed

theorem Splicer_start_failure_witness:
  "\<exists>s'. splice 1 False False [] (os_example\<lparr>nproc := 0\<rparr>) = (Raises OSError, s')
       \<and> Splicer_init 1 False False [] (os_example\<lparr>nproc := 0\<rparr>) = (Raises OSError, s')
       \<and> os_dup 1 (os_example\<lparr>nproc := 0\<rparr>)
            = (Returns 3, os_example\<lparr>nproc := 0, fds := (fds os_example)(3 \<mapsto> 1),
                                     trace := [SysDup 1]\<rparr>)
       \<and> fds (os_example\<lparr>nproc := 0\<rparr>) 3 = None
       \<and> fds s' 3 = Some 1
       \<and> {0, 1, 2} \<subseteq> dom (fds s')"
proof -
  define s' where "s' = snd (splice 1 False False [] (os_example\<lparr>nproc := 0\<rparr>))"
  have A: "splice 1 False False [] (os_example\<lparr>nproc := 0\<rparr>) = (Raises OSError, s')"
    unfolding s'_def by (simp add: os_example_def os_eval)
  have D: "os_dup 1 (os_example\<lparr>nproc := 0\<rparr>)
            = (Returns 3, os_example\<lparr>nproc := 0, fds := (fds os_example)(3 \<mapsto> 1),
                                     trace := [SysDup 1]\<rparr>)"
    by (simp add: os_example_def os_eval)
  from Splicer_start_failure[OF A] A D show ?thesis
    by (auto simp: os_example_def)
qed

text \<open>
  C6 as stated fails: with room for one more descriptor only, \<open>os.dup\<close> succeeds and
  \<open>os.pipe\<close> fails; the error propagates with descriptor 3, the duplicate, left open.
\<close>

theorem splice_leaves_descriptors_open_counterexample:
  "(case splice 1 False False []
          \<lparr>fds = [0 \<mapsto> 0, 1 \<mapsto> 1, 2 \<mapsto> 2], nofile = 4, next_ofd = 3, nproc = 4,
           next_pid = 100, children = [], proc = \<lparr>sig_values = [], handler = None\<rparr>,
           sig_arrival = None, stream_data = (\<lambda>_. None), will_exit = (\<lambda>_. False),
           heap = [], trace = []\<rparr>
    of (Raises e, s') \<Rightarrow> e = OSError \<and> fds s' 3 = Some 1 \<and> trace s' = [SysDup 1, SysPipe]
     | _ \<Rightarrow> False)"
  by (simp add: splice_def then_do_def os_dup_def os_pipe_def open_pair_def log_def
        lowest_free_def Let_def upt_rec)

subsection \<open>Splicer.close\<close>

lemma Splicer_close_effect:
  assumes "Splicer_close self s = (Returns captured, s')"
  shows "trace s' = trace s @
           [SysDup2 (orig_fd_dup self) (spliced_fd self), SysKill (splicer_pid self),
            SysClose (orig_fd_dup self), SysRead (splicer_reader self),
            SysWaitpid (splicer_pid self)]"
    and "fds s' = (fds s)(spliced_fd self := fds s (orig_fd_dup self), orig_fd_dup self := None)"
    and "\<exists>d. fds s' (splicer_reader self) = Some d \<and> stream_data s d = Some captured"
    and "splicer_pid self \<in> set (children s)" and "will_exit s (splicer_pid self)"
    and "splicer_pid self \<notin> set (children s')"
    and "heap s' = heap s"
  using assms
  by (auto simp: Splicer_close_def then_do_def ret_def log_def os_dup2_def os_close_def
        os_kill_def os_waitpid_def file_read_def SignalEvent_send_def Let_def
      split: option.splits if_splits)

lemma Splicer_close_trace_prefix:
  "\<exists>k. trace (snd (Splicer_close self s)) = trace s @
          take k [SysDup2 (orig_fd_dup self) (spliced_fd self), SysKill (splicer_pid self),
                  SysClose (orig_fd_dup self), SysRead (splicer_reader self),
                  SysWaitpid (splicer_pid self)]"
proof -
  let ?cs = "[SysDup2 (orig_fd_dup self) (spliced_fd self), SysKill (splicer_pid self),
              SysClose (orig_fd_dup self), SysRead (splicer_reader self),
              SysWaitpid (splicer_pid self)]"
  have "trace (snd (Splicer_close self s))
          \<in> {trace s @ take 1 ?cs, trace s @ take 2 ?cs, trace s @ take 3 ?cs,
             trace s @ take 4 ?cs, trace s @ take 5 ?cs}"
    by (simp add: Splicer_close_def then_do_def ret_def log_def os_dup2_def os_close_def
          os_kill_def os_waitpid_def file_read_def SignalEvent_send_def Let_def
        split: option.splits)
  then show ?thesis by blast
qed

text \<open>
  C3: when \<open>close\<close> returns, it has made exactly these calls, in this order: dup2 of
  \<open>orig_fd_dup\<close> onto \<open>spliced_fd\<close>, the stop signal to the collector, close of
  \<open>orig_fd_dup\<close>, the read of the outpipe to end-of-stream, the wait for the collector;
  the spliced descriptor refers to the original target again, \<open>orig_fd_dup\<close> is closed,
  the collector is reaped and the result is what the read delivered. Whatever the
  outcome, the calls made are a prefix of that sequence.
\<close>

theorem Splicer_close_order:
  assumes "Splicer_close self s = (Returns captured, s')"
  shows "trace s' = trace s @
           [SysDup2 (orig_fd_dup self) (spliced_fd self), SysKill (splicer_pid self),
            SysClose (orig_fd_dup self), SysRead (splicer_reader self),
            SysWaitpid (splicer_pid self)]
       \<and> fds s' = (fds s)(spliced_fd self := fds s (orig_fd_dup self), orig_fd_dup self := None)
       \<and> (\<exists>d. fds s' (splicer_reader self) = Some d \<and> stream_data s d = Some captured)
       \<and> splicer_pid self \<in> set (children s)
       \<and> splicer_pid self \<notin> set (children s')
       \<and> (\<exists>k. trace (snd (Splicer_close self s0)) = trace s0 @
              take k [SysDup2 (orig_fd_dup self) (spliced_fd self), SysKill (splicer_pid self),
                      SysClose (orig_fd_dup self), SysRead (splicer_reader self),
                      SysWaitpid (splicer_pid self)])"
  using Splicer_close_effect[OF assms] Splicer_close_trace_prefix[of self s0] by blast

theorem Splicer_close_order_witness:
  "\<exists>s'. Splicer_close \<lparr>splicer_pid = 100, splicer_reader = 5, orig_fd_dup = 3, spliced_fd = 1\<rparr>
           (os_example\<lparr>fds := [0 \<mapsto> 0, 1 \<mapsto> 4, 2 \<mapsto> 2, 3 \<mapsto> 1, 5 \<mapsto> 5], children := [100]\<rparr>)
         = (Returns ''ab'', s')
       \<and> trace s' = [SysDup2 3 1, SysKill 100, SysClose 3, SysRead 5, SysWaitpid 100]
       \<and> fds s' 1 = Some 1 \<and> fds s' 3 = None \<and> children s' = []"
proof -
  define s where
    "s = os_example\<lparr>fds := [0 \<mapsto> 0, 1 \<mapsto> 4, 2 \<mapsto> 2, 3 \<mapsto> 1, 5 \<mapsto> 5], children := [100]\<rparr>"
  define self where
    "self = \<lparr>splicer_pid = 100, splicer_reader = 5, orig_fd_dup = 3, spliced_fd = 1\<rparr>"
  define s' where "s' = snd (Splicer_close self s)"
  have A: "Splicer_close self s = (Returns ''ab'', s')"
    unfolding s'_def s_def self_def by (simp add: os_example_def os_eval)
  have c: "children s' = []"
    unfolding s'_def s_def self_def by (simp add: os_example_def os_eval)
  from Splicer_close_order[OF A] A c show ?thesis
    unfolding s_def self_def by (auto simp: os_example_def)
qed

subsection \<open>UnitedStdTrap\<close>

text \<open>
  C9: with stdout and stderr on different descriptors and stderr open, a united trap
  that has been set up and closed again has forked exactly one collector, for a Splicer
  on the stdout descriptor; it has saved a duplicate of the stderr descriptor and then
  pointed the stderr descriptor at the spliced stdout target with dup2; after close the
  three attributes hold the same StringIO object, whose content is what the outpipe
  delivered, both descriptors refer to their original targets and the saved duplicate
  is closed.
\<close>

theorem UnitedStdTrap_redirects_and_restores:
  assumes I: "UnitedStdTrap_init so se usepty transparent files s = (Returns t, s1)"
      and C: "UnitedStdTrap_close so se t s2 = (Returns t', s3)"
      and same: "fds s2 = fds s1"
      and ne: "so \<noteq> se" and open_se: "fds s se \<noteq> None"
  shows "length (filter (\<lambda>c. c = SysFork) (trace s1))
           = Suc (length (filter (\<lambda>c. c = SysFork) (trace s)))
       \<and> children s1 = splicer_pid (stdout_splice t) # children s
       \<and> spliced_fd (stdout_splice t) = so
       \<and> fds s1 so = Some (Suc (next_ofd s)) \<and> fds s1 se = fds s1 so
       \<and> fds s (stderr_dupfd t) = None \<and> fds s1 (stderr_dupfd t) = fds s se
       \<and> (\<exists>pre. trace s1 = pre @ [SysFlush se, SysDup se, SysDup2 so se])
       \<and> (\<exists>a d. std t' = Some a \<and> stderr t' = Some a \<and> stdout t' = Some a
              \<and> a < length (heap s3)
              \<and> fds s2 (splicer_reader (stdout_splice t)) = Some d
              \<and> stream_data s2 d = Some (heap s3 ! a))
       \<and> fds s3 so = fds s so \<and> fds s3 se = fds s se \<and> fds s3 (stderr_dupfd t) = None
       \<and> (\<exists>pre. trace s3
              = pre @ [SysFlush se, SysDup2 (stderr_dupfd t) se, SysClose (stderr_dupfd t)])"
proof -
  from I[unfolded UnitedStdTrap_init_def] obtain u0 a0 where
    i0: "flush so s = (Returns u0, a0)" and
    i1: "then_do (Splicer_init so usepty transparent files) (\<lambda>splice1.
         then_do (flush se) (\<lambda>_.
         then_do (os_dup se) (\<lambda>dupfd.
         then_do (os_dup2 so se) (\<lambda>_.
         ret \<lparr>trap_usepty = usepty, trap_transparent = transparent, stdout_splice = splice1,
              stderr_dupfd = dupfd, std = None, stderr = None, stdout = None\<rparr>)))) a0
         = (Returns t, s1)"
    by (rule then_do_Returns)
  from i1 obtain sp a1 where
    i2: "Splicer_init so usepty transparent files a0 = (Returns sp, a1)" and
    i3: "then_do (flush se) (\<lambda>_.
         then_do (os_dup se) (\<lambda>dupfd.
         then_do (os_dup2 so se) (\<lambda>_.
         ret \<lparr>trap_usepty = usepty, trap_transparent = transparent, stdout_splice = sp,
              stderr_dupfd = dupfd, std = None, stderr = None, stdout = None\<rparr>))) a1
         = (Returns t, s1)"
    by (rule then_do_Returns)
  from i3 obtain u2 a2 where
    i4: "flush se a1 = (Returns u2, a2)" and
    i5: "then_do (os_dup se) (\<lambda>dupfd.
         then_do (os_dup2 so se) (\<lambda>_.
         ret \<lparr>trap_usepty = usepty, trap_transparent = transparent, stdout_splice = sp,
              stderr_dupfd = dupfd, std = None, stderr = None, stdout = None\<rparr>)) a2
         = (Returns t, s1)"
    by (rule then_do_Returns)
  from i5 obtain dupfd a3 where
    i6: "os_dup se a2 = (Returns dupfd, a3)" and
    i7: "then_do (os_dup2 so se) (\<lambda>_.
         ret \<lparr>trap_usepty = usepty, trap_transparent = transparent, stdout_splice = sp,
              stderr_dupfd = dupfd, std = None, stderr = None, stdout = None\<rparr>) a3
         = (Returns t, s1)"
    by (rule then_do_Returns)
  from i7 obtain u4 a4 where
    i8: "os_dup2 so se a3 = (Returns u4, a4)" and
    i9: "ret \<lparr>trap_usepty = usepty, trap_transparent = transparent, stdout_splice = sp,
              stderr_dupfd = dupfd, std = None, stderr = None, stdout = None\<rparr> a4
         = (Returns t, s1)"
    by (rule then_do_Returns)
  from i9 have t: "stdout_splice t = sp" "stderr_dupfd t = dupfd" and s1: "s1 = a4"
    by (auto simp: ret_def)
  from flush_Returns[OF i0] have a0: "a0 = s\<lparr>trace := trace s @ [SysFlush so]\<rparr>" by simp
  from Splicer_init_Returns[OF i2] have sp: "spliced_fd sp = so"
    and spl: "splice so usepty transparent files a0
                = (Returns (splicer_pid sp, splicer_reader sp, orig_fd_dup sp), a1)"
    by simp_all
  from splice_effect[OF spl] a0 obtain d r w pw where
    e: "fds s so = Some d" "fds s (orig_fd_dup sp) = None" "fds s (splicer_reader sp) = None"
       "orig_fd_dup sp \<noteq> splicer_reader sp"
       "fds a1 = (fds s)(orig_fd_dup sp \<mapsto> d, so \<mapsto> Suc (next_ofd s),
                         splicer_reader sp \<mapsto> next_ofd s + 2)"
       "trace a1 = trace s @ [SysFlush so] @
          [SysDup so, if usepty then SysOpenpty else SysPipe, SysDup2 w so,
           SysClose w, SysPipe, SysSignal, SysFork, SysClose pw, SysClose r]"
       "children a1 = splicer_pid sp # children s" "heap a1 = heap s"
    by auto
  from flush_Returns[OF i4] have a2: "a2 = a1\<lparr>trace := trace a1 @ [SysFlush se]\<rparr>" by simp
  from open_se obtain de where de: "fds s se = Some de" by auto
  have se_ne: "se \<noteq> orig_fd_dup sp" "se \<noteq> splicer_reader sp" using e de by auto
  have so_ne: "so \<noteq> orig_fd_dup sp" "so \<noteq> splicer_reader sp" using e by auto
  from os_dup_cases[OF i6] a2 e de se_ne ne have
    a3: "trace a3 = trace a1 @ [SysFlush se, SysDup se]" "children a3 = children a1"
        "heap a3 = heap a1" "fds a1 dupfd = None" "fds a3 = (fds a1)(dupfd \<mapsto> de)"
    by auto
  have dup_ne: "dupfd \<noteq> so" "dupfd \<noteq> se" "dupfd \<noteq> orig_fd_dup sp"
               "dupfd \<noteq> splicer_reader sp" "fds s dupfd = None"
    using a3(4) e(5) de ne by (auto split: if_splits)
  from os_dup2_cases[OF i8] a3 e so_ne dup_ne have
    a4: "trace a4 = trace a1 @ [SysFlush se, SysDup se, SysDup2 so se]"
        "children a4 = children a1" "heap a4 = heap a1"
        "fds a4 = (fds a3)(se \<mapsto> Suc (next_ofd s))"
    by auto
  have P1: "length (filter (\<lambda>c. c = SysFork) (trace s1))
           = Suc (length (filter (\<lambda>c. c = SysFork) (trace s)))"
    using s1 a4 e(6) by simp
  have P2: "children s1 = splicer_pid (stdout_splice t) # children s"
    using s1 a4 e t by simp
  have P3: "spliced_fd (stdout_splice t) = so" using t sp by simp
  have P4: "fds s1 so = Some (Suc (next_ofd s))" "fds s1 se = fds s1 so"
    using s1 a4 a3 e ne so_ne dup_ne by auto
  have P5: "fds s (stderr_dupfd t) = None" "fds s1 (stderr_dupfd t) = fds s se"
    using s1 a4 a3 e de t dup_ne by auto
  have P6: "\<exists>pre. trace s1 = pre @ [SysFlush se, SysDup se, SysDup2 so se]"
    using s1 a4 by simp
  \<comment> \<open>close\<close>
  from C[unfolded UnitedStdTrap_close_def] obtain v0 b0 where
    c0: "flush so s2 = (Returns v0, b0)" and
    c1: "then_do (Splicer_close (stdout_splice t)) (\<lambda>captured.
         then_do (StringIO captured) (\<lambda>a.
         then_do (flush se) (\<lambda>_.
         then_do (os_dup2 (stderr_dupfd t) se) (\<lambda>_.
         then_do (os_close (stderr_dupfd t)) (\<lambda>_.
         ret (t\<lparr>std := Some a, stderr := Some a, stdout := Some a\<rparr>)))))) b0
         = (Returns t', s3)"
    by (rule then_do_Returns)
  from c1 obtain captured b1 where
    c2: "Splicer_close (stdout_splice t) b0 = (Returns captured, b1)" and
    c3: "then_do (StringIO captured) (\<lambda>a.
         then_do (flush se) (\<lambda>_.
         then_do (os_dup2 (stderr_dupfd t) se) (\<lambda>_.
         then_do (os_close (stderr_dupfd t)) (\<lambda>_.
         ret (t\<lparr>std := Some a, stderr := Some a, stdout := Some a\<rparr>))))) b1
         = (Returns t', s3)"
    by (rule then_do_Returns)
  from c3 obtain a b2 where
    c4: "StringIO captured b1 = (Returns a, b2)" and
    c5: "then_do (flush se) (\<lambda>_.
         then_do (os_dup2 (stderr_dupfd t) se) (\<lambda>_.
         then_do (os_close (stderr_dupfd t)) (\<lambda>_.
         ret (t\<lparr>std := Some a, stderr := Some a, stdout := Some a\<rparr>)))) b2
         = (Returns t', s3)"
    by (rule then_do_Returns)
  from c5 obtain v3 b3 where
    c6: "flush se b2 = (Returns v3, b3)" and
    c7: "then_do (os_dup2 (stderr_dupfd t) se) (\<lambda>_.
         then_do (os_close (stderr_dupfd t)) (\<lambda>_.
         ret (t\<lparr>std := Some a, stderr := Some a, stdout := Some a\<rparr>))) b3
         = (Returns t', s3)"
    by (rule then_do_Returns)
  from c7 obtain v4 b4 where
    c8: "os_dup2 (stderr_dupfd t) se b3 = (Returns v4, b4)" and
    c9: "then_do (os_close (stderr_dupfd t)) (\<lambda>_.
         ret (t\<lparr>std := Some a, stderr := Some a, stdout := Some a\<rparr>)) b4
         = (Returns t', s3)"
    by (rule then_do_Returns)
  from c9 obtain v5 b5 where
    c10: "os_close (stderr_dupfd t) b4 = (Returns v5, b5)" and
    c11: "ret (t\<lparr>std := Some a, stderr := Some a, stdout := Some a\<rparr>) b5 = (Returns t', s3)"
    by (rule then_do_Returns)
  from c11 have t': "t' = t\<lparr>std := Some a, stderr := Some a, stdout := Some a\<rparr>"
    and s3: "s3 = b5" by (auto simp: ret_def)
  from flush_Returns[OF c0] have b0: "b0 = s2\<lparr>trace := trace s2 @ [SysFlush so]\<rparr>" by simp
  note cl = Splicer_close_effect[OF c2]
  from cl(3) b0 obtain dd where
    rd: "fds b1 (splicer_reader sp) = Some dd" "stream_data s2 dd = Some captured"
    using t by auto
  from c4 have b2: "a = length (heap b1)" "b2 = b1\<lparr>heap := heap b1 @ [captured]\<rparr>"
    by (auto simp: StringIO_def)
  from flush_Returns[OF c6] have b3: "b3 = b2\<lparr>trace := trace b2 @ [SysFlush se]\<rparr>" by simp
  have fb1: "fds b1 = (fds s1)(so := fds s1 (orig_fd_dup sp), orig_fd_dup sp := None)"
    using cl(2) b0 same t sp by simp
  from os_dup2_cases[OF c8] b3 b2 have
    b4: "trace b4 = trace b1 @ [SysFlush se, SysDup2 (stderr_dupfd t) se]"
        "heap b4 = heap b1 @ [captured]"
        "\<exists>x. fds b1 (stderr_dupfd t) = Some x \<and> fds b4 = (fds b1)(se \<mapsto> x)"
    by auto
  from os_close_cases[OF c10] b4 have
    b5: "trace b5 = trace b1 @ [SysFlush se, SysDup2 (stderr_dupfd t) se, SysClose (stderr_dupfd t)]"
        "heap b5 = heap b1 @ [captured]"
        "fds b5 = (fds b4)(stderr_dupfd t := None)"
    by auto
  have fs1: "fds s1 = (fds s)(orig_fd_dup sp \<mapsto> d, so \<mapsto> Suc (next_ofd s),
                         splicer_reader sp \<mapsto> next_ofd s + 2, dupfd \<mapsto> de,
                         se \<mapsto> Suc (next_ofd s))"
    using s1 a4 a3 e by simp
  have rdr: "fds s2 (splicer_reader sp) = Some dd"
    using rd(1) fb1 same so_ne e(4) by (auto split: if_splits)
  have Q1: "\<exists>a d. std t' = Some a \<and> stderr t' = Some a \<and> stdout t' = Some a
              \<and> a < length (heap s3)
              \<and> fds s2 (splicer_reader (stdout_splice t)) = Some d
              \<and> stream_data s2 d = Some (heap s3 ! a)"
    using t' s3 b5 b2 rd rdr t by (auto simp: nth_append)
  have Q2: "fds s3 so = fds s so" "fds s3 se = fds s se" "fds s3 (stderr_dupfd t) = None"
    using s3 b5 b4 fb1 fs1 t e de ne so_ne se_ne dup_ne by (auto split: if_splits)
  have Q3: "\<exists>pre. trace s3
              = pre @ [SysFlush se, SysDup2 (stderr_dupfd t) se, SysClose (stderr_dupfd t)]"
    using s3 b5 by simp
  from P1 P2 P3 P4 P5 P6 Q1 Q2 Q3 show ?thesis by blast
qed

theorem UnitedStdTrap_redirects_and_restores_witness:
  "\<exists>t s1 t' s3.
      UnitedStdTrap_init 1 2 False False [] os_example = (Returns t, s1)
    \<and> UnitedStdTrap_close 1 2 t s1 = (Returns t', s3)
    \<and> fds os_example 2 \<noteq> None
    \<and> fds s1 1 = Some 4 \<and> fds s1 2 = Some 4 \<and> fds s1 (stderr_dupfd t) = Some 2
    \<and> fds s3 1 = Some 1 \<and> fds s3 2 = Some 2 \<and> fds s3 (stderr_dupfd t) = None
    \<and> (\<exists>a. std t' = Some a \<and> stderr t' = Some a \<and> stdout t' = Some a)"
proof -
  define R where "R = UnitedStdTrap_init 1 2 False False [] os_example"
  define t where "t = (case fst R of Returns x \<Rightarrow> x)"
  define s1 where "s1 = snd R"
  define R' where "R' = UnitedStdTrap_close 1 2 t s1"
  define t' where "t' = (case fst R' of Returns x \<Rightarrow> x)"
  define s3 where "s3 = snd R'"
  have I: "UnitedStdTrap_init 1 2 False False [] os_example = (Returns t, s1)"
    unfolding t_def s1_def R_def by (simp add: os_example_def os_eval)
  have C: "UnitedStdTrap_close 1 2 t s1 = (Returns t', s3)"
    unfolding t'_def s3_def R'_def t_def s1_def R_def by (simp add: os_example_def os_eval)
  have ne: "(1::int) \<noteq> 2" by simp
  have op: "fds os_example 2 \<noteq> None" by (simp add: os_example_def)
  from UnitedStdTrap_redirects_and_restores[OF I C refl ne op] I C op
  show ?thesis by (auto simp: os_example_def)
qed

subsection \<open>The collector\<close>

lemmas collector_defs =
  collector_init_def make_sinks_def Sink_init_def hasattr_def call_method_def
  loop_body_def poll_poll_def revents_def handle_event_def read_and_buffer_def r_fh_read_def
  poll_register_def poll_unregister_def Sink_buffer_def Sink_write_def os_write_def
  isSet_def deliver_def sighandler_def
  POLLIN_def POLLPRI_def POLLOUT_def POLLERR_def POLLHUP_def POLLNVAL_def Let_def

lemma Sink_write_fd: "fd (fst (fst (Sink_write oc dest s))) = fd s"
  by (simp add: Sink_write_def os_write_def Let_def split: write_outcome.splits)

lemma buffer_all_fds:
  "buffer_all d ss ps = (ss', ps', err) \<Longrightarrow> map fd ss' = map fd ss"
proof (induction ss arbitrary: ps ss' ps' err)
  case Nil
  then show ?case by simp
next
  case (Cons s ss)
  then show ?case
    by (auto simp: Let_def Sink_buffer_def split: sum.splits prod.splits)
qed

lemma write_sinks_frame:
  "write_sinks e n m ss dst ps = (ss', dst', ps', err) \<Longrightarrow>
     map fd ss' = map fd ss \<and> (\<forall>k. PyInt k \<notin> fd ` set ss \<longrightarrow> dst' k = dst k)"
proof (induction ss arbitrary: dst ps ss' dst' ps' err)
  case Nil
  then show ?case by simp
next
  case (Cons s ss)
  show ?case
  proof (cases "fd s \<noteq> PyInt n")
    case True
    with Cons.prems obtain r where
      r: "write_sinks e n m ss dst ps = (r, dst', ps', err)" and ss': "ss' = s # r"
      by (auto split: prod.splits)
    from Cons.IH[OF r] ss' show ?thesis by auto
  next
    case eq: False
    show ?thesis
    proof (cases "m AND POLLOUT \<noteq> 0")
      case False
      with eq Cons.prems obtain r where
        r: "write_sinks e n m ss dst ps = (r, dst', ps', err)" and ss': "ss' = s # r"
        by (auto split: prod.splits)
      from Cons.IH[OF r] ss' show ?thesis by auto
    next
      case True
      obtain s1 d1 wa where w: "Sink_write (accepts e n) (dst n) s = ((s1, d1), wa)"
        by (metis prod.exhaust)
      have f1: "fd s1 = fd s" using Sink_write_fd[of "accepts e n" "dst n" s] w by simp
      show ?thesis
      proof (cases "wa \<and> (\<exists>x. poll_unregister (fd s1) ps = Inl x)")
        case True
        with eq \<open>m AND POLLOUT \<noteq> 0\<close> w Cons.prems
        have "ss' = s1 # ss" "dst' = dst(n := d1)" by auto
        with f1 eq show ?thesis by auto
      next
        case False
        with eq \<open>m AND POLLOUT \<noteq> 0\<close> w Cons.prems obtain r ps0 where
          r: "write_sinks e n m ss (dst(n := d1)) ps0 = (r, dst', ps', err)"
          and ss': "ss' = s1 # r"
          by (auto split: prod.splits sum.splits if_splits)
        from Cons.IH[OF r] ss' f1 eq show ?thesis by auto
      qed
    qed
  qed
qed


lemma read_and_buffer_frame:
  "read_and_buffer c = (c', err) \<Longrightarrow>
     map fd (sinks c') = map fd (sinks c) \<and> out c' = out c \<and> hup c' = hup c
     \<and> cproc c' = cproc c \<and> signal_closed c' = signal_closed c \<and> r_fd c' = r_fd c
     \<and> outpipe_fileno c' = outpipe_fileno c \<and> closed c' = closed c"
  by (auto simp: read_and_buffer_def r_fh_read_def
           split: if_splits sum.splits prod.splits option.splits dest!: buffer_all_fds)

lemma handle_event_frame:
  assumes "handle_event e ev c = (c', err)"
  shows "map fd (sinks c') = map fd (sinks c) \<and> hup c' = hup c
     \<and> cproc c' = cproc c \<and> signal_closed c' = signal_closed c \<and> r_fd c' = r_fd c
     \<and> outpipe_fileno c' = outpipe_fileno c
     \<and> (\<forall>k. PyInt k \<notin> fd ` set (sinks c) \<longrightarrow> out c' k = out c k)
     \<and> (closed c' \<longrightarrow> closed c \<or> (fst ev = r_fd c \<and> snd ev AND POLLHUP \<noteq> 0))"
proof -
  obtain n m where ev: "ev = (n, m)" by (cases ev)
  show ?thesis
  proof (cases "n = r_fd c")
    case True
    obtain c1 e1 where rb:
      "(if m AND POLLIN \<noteq> 0 then read_and_buffer c else (c, None)) = (c1, e1)"
      by (metis prod.exhaust)
    have f1: "map fd (sinks c1) = map fd (sinks c) \<and> out c1 = out c \<and> hup c1 = hup c
       \<and> cproc c1 = cproc c \<and> signal_closed c1 = signal_closed c \<and> r_fd c1 = r_fd c
       \<and> outpipe_fileno c1 = outpipe_fileno c \<and> closed c1 = closed c"
      using rb read_and_buffer_frame[of c c1 e1] by (auto split: if_splits)
    from assms ev True rb f1 show ?thesis
      by (auto simp: handle_event_def Let_def split: option.splits sum.splits if_splits)
  next
    case False
    obtain ss dst ps er where w:
      "write_sinks e n m (sinks c) (out c) (poll c) = (ss, dst, ps, er)"
      by (metis prod.exhaust)
    from assms ev False w write_sinks_frame[OF w] show ?thesis
      by (auto simp: handle_event_def)
  qed
qed


lemma handle_events_frame:
  "handle_events e evs c = (c', err) \<Longrightarrow>
     map fd (sinks c') = map fd (sinks c) \<and> hup c' = hup c
     \<and> cproc c' = cproc c \<and> signal_closed c' = signal_closed c \<and> r_fd c' = r_fd c
     \<and> outpipe_fileno c' = outpipe_fileno c
     \<and> (\<forall>k. PyInt k \<notin> fd ` set (sinks c) \<longrightarrow> out c' k = out c k)
     \<and> (closed c' \<longrightarrow> closed c \<or> (\<exists>ev \<in> set evs. fst ev = r_fd c \<and> snd ev AND POLLHUP \<noteq> 0))"
proof (induction evs arbitrary: c)
  case Nil
  then show ?case by simp
next
  case (Cons ev evs)
  obtain c1 e1 where h: "handle_event e ev c = (c1, e1)" by (metis prod.exhaust)
  note f = handle_event_frame[OF h]
  show ?case
  proof (cases e1)
    case (Some x)
    with h Cons.prems have "c' = c1" by simp
    with f show ?thesis by auto
  next
    case None
    with h Cons.prems have r: "handle_events e evs c1 = (c', err)" by simp
    from Cons.IH[OF r] f have
      a: "map fd (sinks c') = map fd (sinks c)" "hup c' = hup c" "cproc c' = cproc c"
         "signal_closed c' = signal_closed c" "r_fd c' = r_fd c"
         "outpipe_fileno c' = outpipe_fileno c"
      by simp_all
    have s: "fd ` set (sinks c1) = fd ` set (sinks c)"
      using f by (metis list.set_map)
    have b: "\<forall>k. PyInt k \<notin> fd ` set (sinks c) \<longrightarrow> out c' k = out c k"
      using Cons.IH[OF r] f s by auto
    have d: "closed c' \<longrightarrow> closed c
               \<or> (\<exists>ev \<in> set (ev # evs). fst ev = r_fd c \<and> snd ev AND POLLHUP \<noteq> 0)"
      using Cons.IH[OF r] f by auto
    from a b d show ?thesis by blast
  qed
qed

lemma poll_poll_hup:
  assumes "poll_poll e c = Inr evs" and "ev \<in> set evs" and "fst ev = r_fd c"
    and "snd ev AND POLLHUP \<noteq> 0"
  shows "hup c"
proof (rule ccontr)
  assume nh: "\<not> hup c"
  from assms(1,2,3) obtain m where
    m: "snd ev = (if chan c \<noteq> [] then POLLIN else 0) AND (m OR POLLERR OR POLLHUP OR POLLNVAL)"
    using nh by (auto simp: poll_poll_def revents_def split: if_splits)
  have z: "POLLIN AND POLLHUP = 0" by (simp add: POLLIN_def POLLHUP_def)
  have "(POLLIN AND (m OR POLLERR OR POLLHUP OR POLLNVAL)) AND POLLHUP
          = (POLLIN AND POLLHUP) AND (m OR POLLERR OR POLLHUP OR POLLNVAL)"
    by (simp only: and.assoc and.left_commute and.commute)
  with z have "((if chan c \<noteq> [] then POLLIN else 0) AND (m OR POLLERR OR POLLHUP OR POLLNVAL))
          AND POLLHUP = 0"
    by simp
  with m assms(4) show False by simp
qed

lemma loop_body_Break:
  assumes "loop_body e c = Break c'"
  shows "closed c' \<and> drained c' \<and> (closed c \<or> isSet (signal_closed c) (cproc c))
       \<and> sinks c' = sinks c \<and> out c' = out c \<and> chan c' = chan c \<and> hup c' = hup c
       \<and> cproc c' = cproc c \<and> signal_closed c' = signal_closed c
       \<and> outpipe_fileno c' = outpipe_fileno c"
  using assms
  by (auto simp: loop_body_def Let_def drained_def split: if_splits prod.splits option.splits)

lemma loop_body_frame:
  assumes "loop_body e c = Continue c' \<or> loop_body e c = Raise err c'"
  shows "map fd (sinks c') = map fd (sinks c) \<and> hup c' = hup c \<and> cproc c' = cproc c
       \<and> signal_closed c' = signal_closed c \<and> outpipe_fileno c' = outpipe_fileno c
       \<and> (\<forall>k. PyInt k \<notin> fd ` set (sinks c) \<longrightarrow> out c' k = out c k)
       \<and> (closed c' \<longrightarrow> closed c \<or> stop_observed c)"
proof -
  define c1 where "c1 = (if \<not> closed c then c\<lparr>closed := isSet (signal_closed c) (cproc c)\<rparr> else c)"
  define evs where "evs = (case poll_poll e c1 of Inl err \<Rightarrow> [] | Inr evs \<Rightarrow> evs)"
  obtain er where h: "handle_events e evs c1 = (c', er)"
    using assms
    by (auto simp: loop_body_def Let_def c1_def evs_def split: if_splits prod.splits option.splits)
  have c1: "sinks c1 = sinks c" "hup c1 = hup c" "cproc c1 = cproc c"
    "signal_closed c1 = signal_closed c" "outpipe_fileno c1 = outpipe_fileno c" "out c1 = out c"
    "r_fd c1 = r_fd c" "chan c1 = chan c"
    "closed c1 \<longrightarrow> closed c \<or> isSet (signal_closed c) (cproc c)"
    by (simp_all add: c1_def)
  note f = handle_events_frame[OF h]
  have "closed c' \<longrightarrow> closed c \<or> stop_observed c"
  proof
    assume "closed c'"
    with f consider "closed c1" | ev where "ev \<in> set evs" "fst ev = r_fd c1" "snd ev AND POLLHUP \<noteq> 0"
      by blast
    then show "closed c \<or> stop_observed c"
    proof cases
      case 1
      with c1 show ?thesis by (auto simp: stop_observed_def)
    next
      case 2
      then have "evs \<noteq> []" by auto
      then obtain evs' where p: "poll_poll e c1 = Inr evs'" "evs' = evs"
        by (auto simp: evs_def split: sum.splits)
      from poll_poll_hup[OF p(1) _ 2(2,3)] 2(1) p(2) have "hup c1" by simp
      with c1 show ?thesis by (simp add: stop_observed_def)
    qed
  qed
  with f c1 show ?thesis by simp
qed

lemma sighandler_keeps_flag:
  "isSet i p \<Longrightarrow> isSet i (sighandler k p)"
  by (cases "k = i"; cases "k < length (sig_values p)")
     (auto simp: isSet_def sighandler_def list_update_beyond)

lemma child_step_exit_inv:
  assumes "case st of Running c \<Rightarrow> closed c \<longrightarrow> stop_observed c
                    | Exited n c \<Rightarrow> n = 0 \<and> closed c \<and> drained c \<and> stop_observed c
                    | _ \<Rightarrow> True"
  shows "case child_step st ev of Running c \<Rightarrow> closed c \<longrightarrow> stop_observed c
                    | Exited n c \<Rightarrow> n = 0 \<and> closed c \<and> drained c \<and> stop_observed c
                    | _ \<Rightarrow> True"
proof (cases st)
  case (Running c)
  with assms have inv: "closed c \<longrightarrow> stop_observed c" by simp
  show ?thesis
  proof (cases ev)
    case (Wrote b)
    with Running inv show ?thesis by (simp add: stop_observed_def)
  next
    case CloseWriter
    with Running inv show ?thesis by (simp add: stop_observed_def)
  next
    case Signal
    with Running inv show ?thesis
      by (auto simp: stop_observed_def deliver_def sighandler_keeps_flag split: option.splits)
  next
    case (Iterate e)
    show ?thesis
    proof (cases "loop_body e c")
      case (Continue c')
      with loop_body_frame[of e c c'] inv Running Iterate show ?thesis
        by (auto simp: stop_observed_def)
    next
      case (Break c')
      with loop_body_Break[OF Break] inv Running Iterate show ?thesis
        by (auto simp: stop_observed_def)
    next
      case (Raise x c')
      with Running Iterate show ?thesis by simp
    qed
  qed
next
  case (Exited n c)
  with assms show ?thesis by (cases ev) (auto simp: drained_def stop_observed_def)
next
  case (Crashed x c)
  then show ?thesis by (cases ev) auto
next
  case (Killed c)
  then show ?thesis by (cases ev) auto
qed

lemma child_run_exit_inv:
  assumes "case st of Running c \<Rightarrow> closed c \<longrightarrow> stop_observed c
                    | Exited n c \<Rightarrow> n = 0 \<and> closed c \<and> drained c \<and> stop_observed c
                    | _ \<Rightarrow> True"
  shows "case child_run st evs of Running c \<Rightarrow> closed c \<longrightarrow> stop_observed c
                    | Exited n c \<Rightarrow> n = 0 \<and> closed c \<and> drained c \<and> stop_observed c
                    | _ \<Rightarrow> True"
  using assms
proof (induction evs arbitrary: st)
  case Nil
  then show ?case by simp
next
  case (Cons ev evs)
  from child_step_exit_inv[OF Cons.prems] have
    "case child_step st ev of Running c \<Rightarrow> closed c \<longrightarrow> stop_observed c
                    | Exited n c \<Rightarrow> n = 0 \<and> closed c \<and> drained c \<and> stop_observed c
                    | _ \<Rightarrow> True" .
  from Cons.IH[OF this] show ?case by simp
qed

text \<open>
  Leaving the loop through \<open>break\<close>: whatever happened before, the collector exits with
  status 0, with a stop observed (the flag set by the signal, or the channel hung up)
  and with every sink empty.
\<close>

lemma collector_exit_state:
  assumes "child_run (Running (collector_init r outfd orig transparent files p sig)) evs
             = Exited n c'"
  shows "n = 0 \<and> closed c' \<and> drained c' \<and> stop_observed c'"
proof -
  have "case Running (collector_init r outfd orig transparent files p sig) of
          Running c \<Rightarrow> closed c \<longrightarrow> stop_observed c
        | Exited n c \<Rightarrow> n = 0 \<and> closed c \<and> drained c \<and> stop_observed c
        | _ \<Rightarrow> True"
    by (simp add: collector_init_def)
  from child_run_exit_inv[OF this, of evs] assms show ?thesis by simp
qed

lemma child_step_out_frame:
  assumes "PyInt k \<notin> fd ` set (sinks (collector_of st))"
  shows "out (collector_of (child_step st ev)) k = out (collector_of st) k
       \<and> map fd (sinks (collector_of (child_step st ev))) = map fd (sinks (collector_of st))"
proof (cases st)
  case (Running c)
  show ?thesis
  proof (cases ev)
    case (Iterate e)
    show ?thesis
    proof (cases "loop_body e c")
      case (Continue c')
      with loop_body_frame[of e c c'] assms Running Iterate show ?thesis by simp
    next
      case (Break c')
      with loop_body_Break[OF Break] Running Iterate show ?thesis by simp
    next
      case (Raise x c')
      with loop_body_frame[of e c c' x] assms Running Iterate show ?thesis by simp
    qed
  qed (use Running in \<open>auto split: option.splits\<close>)
qed (cases ev; simp)+

lemma child_run_out_frame:
  assumes "PyInt k \<notin> fd ` set (sinks (collector_of st))"
  shows "out (collector_of (child_run st evs)) k = out (collector_of st) k"
  using assms
proof (induction evs arbitrary: st)
  case Nil
  then show ?case by simp
next
  case (Cons ev evs)
  from child_step_out_frame[OF Cons.prems, of ev] have
    a: "out (collector_of (child_step st ev)) k = out (collector_of st) k"
    and b: "map fd (sinks (collector_of (child_step st ev))) = map fd (sinks (collector_of st))"
    by simp_all
  from b have "fd ` set (sinks (collector_of (child_step st ev))) = fd ` set (sinks (collector_of st))"
    by (metis list.set_map)
  with Cons.prems have "PyInt k \<notin> fd ` set (sinks (collector_of (child_step st ev)))" by simp
  from Cons.IH[OF this] a show ?case by simp
qed

lemma write_sinks_other:
  "write_sinks e n m ss dst ps = (ss', dst', ps', err) \<Longrightarrow> k \<noteq> n \<Longrightarrow> dst' k = dst k"
proof (induction ss arbitrary: dst ps ss' dst' ps' err)
  case Nil
  then show ?case by simp
next
  case (Cons s ss)
  obtain s1 d1 wa where w: "Sink_write (accepts e n) (dst n) s = ((s1, d1), wa)"
    by (metis prod.exhaust)
  from Cons.prems(1) w consider
      (stop) "dst' = dst(n := d1) \<or> dst' = dst"
    | (go) r dst0 ps0 where "write_sinks e n m ss dst0 ps0 = (r, dst', ps', err)"
        "dst0 = dst \<or> dst0 = dst(n := d1)"
    by (auto split: if_splits prod.splits sum.splits)
  then show ?case
  proof cases
    case stop
    with Cons.prems(2) show ?thesis by auto
  next
    case go
    from Cons.IH[OF go(1) Cons.prems(2)] go(2) Cons.prems(2) show ?thesis by auto
  qed
qed

lemma buffer_all_hd:
  "buffer_all d (s0 # rest) ps = (ss', ps', err) \<Longrightarrow> ss' \<noteq> [] \<and> hd ss' = Sink_buffer d s0"
  by (auto simp: Let_def split: sum.splits prod.splits)

lemma outpipe_first_cong:
  assumes m: "map fd (sinks c') = map fd (sinks c)"
    and o: "outpipe_fileno c' = outpipe_fileno c"
    and f: "outpipe_first c"
  shows "outpipe_first c'"
proof -
  from f obtain s0 rest where s: "sinks c = s0 # rest" "fd s0 = PyInt (outpipe_fileno c)"
    "PyInt (outpipe_fileno c) \<notin> fd ` set rest" by (auto simp: outpipe_first_def)
  from m s(1) obtain s0' rest' where s': "sinks c' = s0' # rest'" "fd s0' = fd s0"
    "map fd rest' = map fd rest"
    by (auto simp: map_eq_Cons_conv)
  from s'(3) have "set (map fd rest') = set (map fd rest)" by simp
  then have "fd ` set rest' = fd ` set rest" by simp
  with s s' o show ?thesis by (auto simp: outpipe_first_def)
qed

lemma read_and_buffer_in_flight:
  assumes "outpipe_first c" and "read_and_buffer c = (c', err)"
  shows "in_flight c' = in_flight c"
proof -
  from assms(1) obtain s0 rest where s: "sinks c = s0 # rest" by (auto simp: outpipe_first_def)
  show ?thesis
  proof (cases "r_fh_read c")
    case (Inl x)
    with assms(2) show ?thesis by (simp add: read_and_buffer_def)
  next
    case (Inr p)
    then have p: "p = (chan c, c\<lparr>chan := []\<rparr>)" by (auto simp: r_fh_read_def split: if_splits)
    obtain ss ps er where b: "buffer_all (chan c) (s0 # rest) (poll c) = (ss, ps, er)"
      by (metis prod.exhaust)
    from buffer_all_hd[OF b] have h: "hd ss = Sink_buffer (chan c) s0" by simp
    from assms(2) Inr p b s have
      "sinks c' = ss \<and> out c' = out c \<and> chan c' = [] \<and> outpipe_fileno c' = outpipe_fileno c"
      by (auto simp: read_and_buffer_def split: option.splits sum.splits)
    with h s show ?thesis by (simp add: in_flight_def Sink_buffer_def)
  qed
qed

lemma write_sinks_in_flight:
  assumes s: "fd s0 = PyInt k" "PyInt k \<notin> fd ` set rest"
    and w: "write_sinks e n m (s0 # rest) dst ps = (ss', dst', ps', err)"
  shows "ss' \<noteq> [] \<and> dst' k @ data (hd ss') = dst k @ data s0"
proof (cases "n = k \<and> m AND POLLOUT \<noteq> 0")
  case False
  with s w obtain r where r: "write_sinks e n m rest dst ps = (r, dst', ps', err)"
    and ss': "ss' = s0 # r"
    by (auto split: prod.splits if_splits)
  have "dst' k = dst k"
  proof (cases "n = k")
    case True
    with write_sinks_frame[OF r] s show ?thesis by simp
  next
    case False
    with write_sinks_other[OF r] show ?thesis by simp
  qed
  with ss' show ?thesis by simp
next
  case True
  obtain s1 d1 wa where sw: "Sink_write (accepts e k) (dst k) s0 = ((s1, d1), wa)"
    by (metis prod.exhaust)
  have eq: "d1 @ data s1 = dst k @ data s0" and f1: "fd s1 = fd s0"
    using sw by (auto simp: Sink_write_def os_write_def Let_def split: write_outcome.splits if_splits)
  from True s w sw consider
      (stop) "ss' = s1 # rest" "dst' = dst(k := d1)"
    | (go) r ps0 where "write_sinks e k m rest (dst(k := d1)) ps0 = (r, dst', ps', err)"
        "ss' = s1 # r"
    by (auto split: if_splits prod.splits sum.splits)
  then show ?thesis
  proof cases
    case stop
    with eq show ?thesis by simp
  next
    case go
    from write_sinks_frame[OF go(1)] s have "dst' k = d1" by simp
    with go(2) eq show ?thesis by simp
  qed
qed

lemma handle_event_in_flight:
  assumes o: "outpipe_first c" and h: "handle_event e ev c = (c', err)"
  shows "in_flight c' = in_flight c"
proof -
  obtain n m where ev: "ev = (n, m)" by (cases ev)
  from o obtain s0 rest where s: "sinks c = s0 # rest" "fd s0 = PyInt (outpipe_fileno c)"
    "PyInt (outpipe_fileno c) \<notin> fd ` set rest" by (auto simp: outpipe_first_def)
  show ?thesis
  proof (cases "n = r_fd c")
    case True
    obtain c1 e1 where rb:
      "(if m AND POLLIN \<noteq> 0 then read_and_buffer c else (c, None)) = (c1, e1)"
      by (metis prod.exhaust)
    have f1: "in_flight c1 = in_flight c"
      using rb read_and_buffer_in_flight[OF o, of c1 e1] by (auto split: if_splits)
    from h ev True rb have "sinks c' = sinks c1 \<and> out c' = out c1 \<and> chan c' = chan c1
        \<and> outpipe_fileno c' = outpipe_fileno c1"
      by (auto simp: handle_event_def Let_def split: option.splits sum.splits if_splits)
    with f1 show ?thesis by (simp add: in_flight_def)
  next
    case False
    obtain ss dst ps er where w:
      "write_sinks e n m (s0 # rest) (out c) (poll c) = (ss, dst, ps, er)"
      by (metis prod.exhaust)
    from h ev False w s have c': "sinks c' = ss" "out c' = dst" "chan c' = chan c"
      "outpipe_fileno c' = outpipe_fileno c"
      by (auto simp: handle_event_def)
    from write_sinks_in_flight[OF s(2,3) w] c' s show ?thesis by (simp add: in_flight_def)
  qed
qed

lemma handle_events_in_flight:
  "outpipe_first c \<Longrightarrow> handle_events e evs c = (c', err) \<Longrightarrow> in_flight c' = in_flight c"
proof (induction evs arbitrary: c)
  case Nil
  then show ?case by simp
next
  case (Cons ev evs)
  obtain c1 e1 where h: "handle_event e ev c = (c1, e1)" by (metis prod.exhaust)
  note f = handle_event_frame[OF h]
  have i1: "in_flight c1 = in_flight c" by (rule handle_event_in_flight[OF Cons.prems(1) h])
  show ?case
  proof (cases e1)
    case (Some x)
    with h Cons.prems(2) i1 show ?thesis by simp
  next
    case None
    with h Cons.prems(2) have r: "handle_events e evs c1 = (c', err)" by simp
    have "outpipe_first c1" using f Cons.prems(1) outpipe_first_cong by blast
    from Cons.IH[OF this r] i1 show ?thesis by simp
  qed
qed

lemma loop_body_in_flight:
  assumes o: "outpipe_first c"
  shows "loop_body e c = Continue c' \<or> loop_body e c = Break c' \<or> loop_body e c = Raise x c'
           \<Longrightarrow> in_flight c' = in_flight c \<and> outpipe_first c'"
proof -
  assume a: "loop_body e c = Continue c' \<or> loop_body e c = Break c' \<or> loop_body e c = Raise x c'"
  define c1 where "c1 = (if \<not> closed c then c\<lparr>closed := isSet (signal_closed c) (cproc c)\<rparr> else c)"
  define evs where "evs = (case poll_poll e c1 of Inl err \<Rightarrow> [] | Inr evs \<Rightarrow> evs)"
  have c1: "in_flight c1 = in_flight c" "outpipe_first c1"
    using o by (simp_all add: c1_def in_flight_def outpipe_first_def)
  from a consider "c' = c1" | er where "handle_events e evs c1 = (c', er)"
    by (auto simp: loop_body_def Let_def c1_def evs_def split: if_splits prod.splits option.splits)
  then show ?thesis
  proof cases
    case 1
    with c1 show ?thesis by simp
  next
    case 2
    from handle_events_in_flight[OF c1(2) 2] handle_events_frame[OF 2] c1
      outpipe_first_cong[of c' c1]
    show ?thesis by simp
  qed
qed

lemma child_step_in_flight:
  assumes "outpipe_first (collector_of st)"
  shows "in_flight (collector_of (child_step st ev))
           = in_flight (collector_of st) @ (case ev of Wrote b \<Rightarrow> b | _ \<Rightarrow> [])
       \<and> outpipe_first (collector_of (child_step st ev))"
proof (cases st)
  case (Running c)
  show ?thesis
  proof (cases ev)
    case (Iterate e)
    show ?thesis
    proof (cases "loop_body e c")
      case (Continue c')
      with loop_body_in_flight[of c e c'] assms Running Iterate show ?thesis by simp
    next
      case (Break c')
      with loop_body_in_flight[of c e c'] assms Running Iterate show ?thesis by simp
    next
      case (Raise x c')
      with loop_body_in_flight[of c e c' x] assms Running Iterate show ?thesis by simp
    qed
  qed (use Running assms in \<open>auto simp: in_flight_def outpipe_first_def split: option.splits\<close>)
qed (use assms in \<open>cases ev; simp add: in_flight_def outpipe_first_def\<close>)+

lemma child_run_in_flight:
  assumes "outpipe_first (collector_of st)"
  shows "in_flight (collector_of (child_run st evs)) = in_flight (collector_of st) @ written evs"
  using assms
proof (induction evs arbitrary: st)
  case Nil
  then show ?case by simp
next
  case (Cons ev evs)
  from child_step_in_flight[OF Cons.prems, of ev] have
    a: "in_flight (collector_of (child_step st ev))
           = in_flight (collector_of st) @ (case ev of Wrote b \<Rightarrow> b | _ \<Rightarrow> [])"
    and b: "outpipe_first (collector_of (child_step st ev))" by simp_all
  from Cons.IH[OF b] a show ?case by (cases ev) simp_all
qed

lemma child_step_outpipe_fileno:
  "outpipe_fileno (collector_of (child_step st ev)) = outpipe_fileno (collector_of st)"
proof (cases st)
  case (Running c)
  show ?thesis
  proof (cases ev)
    case (Iterate e)
    show ?thesis
    proof (cases "loop_body e c")
      case (Continue c')
      with loop_body_frame[of e c c'] Running Iterate show ?thesis by simp
    next
      case (Break c')
      with loop_body_Break[OF Break] Running Iterate show ?thesis by simp
    next
      case (Raise x c')
      with loop_body_frame[of e c c' x] Running Iterate show ?thesis by simp
    qed
  qed (use Running in \<open>auto split: option.splits\<close>)
qed (cases ev; simp)+

lemma child_run_outpipe_fileno:
  "outpipe_fileno (collector_of (child_run st evs)) = outpipe_fileno (collector_of st)"
  by (induction evs arbitrary: st) (simp_all add: child_step_outpipe_fileno)

lemma child_run_outpipe_first:
  "outpipe_first (collector_of st) \<Longrightarrow> outpipe_first (collector_of (child_run st evs))"
  by (induction evs arbitrary: st) (simp_all add: child_step_in_flight)

text \<open>
  What does hold of a capture: when the collector has exited, the bytes it has put into
  the outpipe, followed by the bytes still unread in the channel, are exactly the bytes
  that were written to the trapped descriptor, in order; and a descriptor that is not
  among the sinks (the original destination when transparent is off) has received
  nothing.
\<close>

lemma collector_capture:
  assumes run: "child_run (Running (collector_init r outfd orig transparent files p sig)) evs
                  = Exited n c'"
    and files: "PyInt outfd \<notin> fd ` set (map Sink_init files)"
    and tr: "transparent \<longrightarrow> orig \<noteq> outfd"
  shows "out c' outfd @ chan c' = written evs"
proof -
  let ?c0 = "collector_init r outfd orig transparent files p sig"
  have o: "outpipe_first (collector_of (Running ?c0))"
    using files tr
    by (auto simp: outpipe_first_def collector_init_def make_sinks_def Let_def Sink_init_def
          hasattr_def)
  have i0: "in_flight ?c0 = []"
    by (simp add: in_flight_def collector_init_def make_sinks_def Let_def Sink_init_def)
  from child_run_in_flight[OF o, of evs] run i0 have i: "in_flight c' = written evs" by simp
  from child_run_outpipe_first[OF o, of evs] run have o': "outpipe_first c'" by simp
  from child_run_outpipe_fileno[of "Running ?c0" evs] run have f: "outpipe_fileno c' = outfd"
    by (simp add: collector_init_def)
  from collector_exit_state[OF run] have "drained c'" by simp
  with o' have "data (hd (sinks c')) = []" by (auto simp: drained_def outpipe_first_def)
  with i f show ?thesis by (simp add: in_flight_def)
qed

lemma collector_leaves_original_alone:
  assumes "PyInt orig \<notin> fd ` set (map Sink_init files)" and "orig \<noteq> outfd"
  shows "out (collector_of (child_run (Running (collector_init r outfd orig False files p sig)) evs))
           orig = []"
proof -
  let ?c0 = "collector_init r outfd orig False files p sig"
  have "PyInt orig \<notin> fd ` set (sinks (collector_of (Running ?c0)))"
    using assms
    by (auto simp: collector_init_def make_sinks_def Let_def Sink_init_def hasattr_def)
  from child_run_out_frame[OF this, of evs] show ?thesis by (simp add: collector_init_def)
qed

lemma buffer_all_ints:
  assumes "\<forall>s \<in> set ss. \<exists>k. fd s = PyInt k" and "buffer_all d ss ps = (ss', ps', err)"
  shows "err = None \<and> fst ` set ps \<subseteq> fst ` set ps'
       \<and> (distinct (map fst ps) \<longrightarrow> distinct (map fst ps'))"
  using assms
proof (induction ss arbitrary: ps ss' ps' err)
  case Nil
  then show ?case by simp
next
  case (Cons s ss)
  from Cons.prems(1) obtain k where k: "fd s = PyInt k" by auto
  from Cons.prems(2) k obtain r where
    r: "buffer_all d ss (AList.update k (POLLIN OR POLLPRI OR POLLOUT) ps) = (r, ps', err)"
    by (auto simp: Let_def Sink_buffer_def poll_register_def split: prod.splits)
  from Cons.prems(1) have "\<forall>s \<in> set ss. \<exists>k. fd s = PyInt k" by simp
  from Cons.IH[OF this r] show ?case
    by (auto simp: AList.dom_update AList.distinct_update)
qed

lemma write_sinks_nomatch:
  "PyInt n \<notin> fd ` set ss \<Longrightarrow> write_sinks e n m ss dst ps = (ss, dst, ps, None)"
  by (induction ss) auto

lemma write_sinks_distinct:
  assumes "distinct (map fd ss)" and "n \<in> fst ` set ps" and "distinct (map fst ps)"
    and "write_sinks e n m ss dst ps = (ss', dst', ps', err)"
  shows "err = None \<and> fst ` set ps - {n} \<subseteq> fst ` set ps' \<and> distinct (map fst ps')"
  using assms
proof (induction ss arbitrary: dst ps ss' dst' ps' err)
  case Nil
  then show ?case by auto
next
  case (Cons s ss)
  show ?case
  proof (cases "fd s = PyInt n")
    case False
    with Cons.prems(4) obtain r where r: "write_sinks e n m ss dst ps = (r, dst', ps', err)"
      by (auto split: prod.splits)
    from Cons.prems(1) have "distinct (map fd ss)" by simp
    from Cons.IH[OF this Cons.prems(2,3) r] show ?thesis .
  next
    case True
    with Cons.prems(1) have nm: "PyInt n \<notin> fd ` set ss" by auto
    obtain s1 d1 wa where w: "Sink_write (accepts e n) (dst n) s = ((s1, d1), wa)"
      by (metis prod.exhaust)
    have f1: "fd s1 = PyInt n" using Sink_write_fd[of "accepts e n" "dst n" s] w True by simp
    from Cons.prems(2) have reg: "map_of ps n \<noteq> None"
      by (simp add: map_of_eq_None_iff)
    have un: "poll_unregister (PyInt n) ps = Inr (AList.delete n ps)"
      using reg by (simp add: poll_unregister_def)
    have k: "fst ` set ps - {n} \<subseteq> fst ` set (AList.delete n ps)"
      by (metis AList.delete_keys list.set_map set_removeAll subset_refl)
    from Cons.prems(4) True w f1 un write_sinks_nomatch[OF nm] have
      "err = None \<and> (ps' = ps \<or> ps' = AList.delete n ps)"
      by (auto split: if_splits)
    with k Cons.prems(3) show ?thesis by (auto simp: AList.distinct_delete)
  qed
qed

lemma poll_pollin:
  assumes "poll_poll e c = Inr evs" and "(r_fd c, m) \<in> set evs" and "m AND POLLIN \<noteq> 0"
  shows "chan c \<noteq> []"
proof (rule ccontr)
  assume "\<not> chan c \<noteq> []"
  with assms(1,2) obtain x where
    m: "m = (if hup c then POLLHUP else 0) AND (x OR POLLERR OR POLLHUP OR POLLNVAL)"
    by (auto simp: poll_poll_def revents_def split: if_splits)
  have z: "POLLHUP AND POLLIN = 0" by (simp add: POLLIN_def POLLHUP_def)
  have "(POLLHUP AND (x OR POLLERR OR POLLHUP OR POLLNVAL)) AND POLLIN
          = (POLLHUP AND POLLIN) AND (x OR POLLERR OR POLLHUP OR POLLNVAL)"
    by (simp only: and.assoc and.left_commute and.commute)
  with z m have "m AND POLLIN = 0" by simp
  with assms(3) show False by simp
qed

lemma events_keys:
  "fst ` set (filter P (map (\<lambda>(n, m). (n, g n m)) xs)) \<subseteq> fst ` set xs"
  by (induction xs) (auto split: prod.splits)

lemma events_distinct:
  "distinct (map fst xs) \<Longrightarrow> distinct (map fst (filter P (map (\<lambda>(n, m). (n, g n m)) xs)))"
proof (induction xs)
  case Nil
  then show ?case by simp
next
  case (Cons x xs)
  obtain n m where x: "x = (n, m)" by (cases x)
  from Cons.prems x have "n \<notin> fst ` set xs" by auto
  with events_keys[of P g xs] have "n \<notin> fst ` set (filter P (map (\<lambda>(n, m). (n, g n m)) xs))"
    by blast
  with Cons x show ?case by auto
qed

lemma poll_poll_events:
  assumes "poll_poll e c = Inr evs" and "distinct (map fst (poll c))"
  shows "distinct (map fst evs) \<and> fst ` set evs \<subseteq> fst ` set (poll c)"
proof -
  from assms(1) have evs: "evs = filter (\<lambda>(n, ev). ev \<noteq> 0)
                  (map (\<lambda>(n, eventmask). (n, revents e c n eventmask)) (poll c))"
    by (auto simp: poll_poll_def split: if_splits)
  show ?thesis unfolding evs
    using events_distinct[OF assms(2), of "\<lambda>(n, ev). ev \<noteq> 0" "revents e c"]
      events_keys[of "\<lambda>(n, ev). ev \<noteq> 0" "revents e c" "poll c"]
    by simp
qed

lemma read_and_buffer_ok:
  assumes W: "distinct_sinks c" and rd: "chan c \<noteq> [] \<or> hup c"
    and h: "read_and_buffer c = (c1, e1)"
  shows "e1 = None \<and> fst ` set (poll c) \<subseteq> fst ` set (poll c1) \<and> distinct (map fst (poll c1))"
proof -
  from rd have r: "r_fh_read c = Inr (chan c, c\<lparr>chan := []\<rparr>)" by (auto simp: r_fh_read_def)
  obtain ss ps er where b: "buffer_all (chan c) (sinks c) (poll c) = (ss, ps, er)"
    by (metis prod.exhaust)
  from W have ints: "\<forall>s \<in> set (sinks c). \<exists>k. fd s = PyInt k" and d: "distinct (map fst (poll c))"
    by (auto simp: distinct_sinks_def)
  from buffer_all_ints[OF ints b] d have
    er: "er = None" and k: "fst ` set (poll c) \<subseteq> fst ` set ps" and dp: "distinct (map fst ps)"
    by simp_all
  from h r b er have
    "e1 = None \<and> poll c1 = AList.update (outpipe_fileno c) POLLOUT ps"
    by (auto simp: read_and_buffer_def poll_register_def)
  with k dp show ?thesis by (auto simp: AList.dom_update AList.distinct_update)
qed

lemma handle_event_chan_poll:
  assumes h: "handle_event e (r_fd c, m) c = (c', err)"
    and rb: "(if m AND POLLIN \<noteq> 0 then read_and_buffer c else (c, None)) = (c1, None)"
    and un: "poll_unregister (PyInt (r_fd c)) (poll c1) = Inr (AList.delete (r_fd c) (poll c1))"
  shows "err = None \<and> (poll c' = poll c1 \<or> poll c' = AList.delete (r_fd c) (poll c1))"
proof (cases "m AND POLLHUP \<noteq> 0")
  case True
  from h have "(c1\<lparr>closed := True, poll := AList.delete (r_fd c) (poll c1)\<rparr>, None) = (c', err)"
    unfolding handle_event_def prod.case rb by (simp add: Let_def True un)
  then show ?thesis by auto
next
  case False
  from h have "(c1, None) = (c', err)"
    unfolding handle_event_def prod.case rb using False by simp
  then show ?thesis by auto
qed

lemma delete_keeps_others:
  "fst ` set ps - {n} \<subseteq> fst ` set (AList.delete n ps)"
  by (metis AList.delete_keys list.set_map set_removeAll subset_refl)

lemma handle_event_chan_ok:
  assumes W: "distinct_sinks c" and reg: "r_fd c \<in> fst ` set (poll c)"
    and rd: "m AND POLLIN \<noteq> 0 \<longrightarrow> chan c \<noteq> [] \<or> hup c"
    and h: "handle_event e (r_fd c, m) c = (c', err)"
  shows "err = None \<and> distinct (map fst (poll c'))
       \<and> fst ` set (poll c) - {r_fd c} \<subseteq> fst ` set (poll c')"
proof -
  obtain c1 e1 where rb:
    "(if m AND POLLIN \<noteq> 0 then read_and_buffer c else (c, None)) = (c1, e1)"
    by (metis prod.exhaust)
  have ok: "e1 = None \<and> fst ` set (poll c) \<subseteq> fst ` set (poll c1)
              \<and> distinct (map fst (poll c1))"
  proof (cases "m AND POLLIN \<noteq> 0")
    case True
    with rb have rb': "read_and_buffer c = (c1, e1)" by simp
    from rd True have "chan c \<noteq> [] \<or> hup c" by simp
    from read_and_buffer_ok[OF W this rb'] show ?thesis .
  next
    case False
    with rb have "c1 = c" "e1 = None" by simp_all
    with W show ?thesis by (simp add: distinct_sinks_def)
  qed
  then have e1: "e1 = None" and sub: "fst ` set (poll c) \<subseteq> fst ` set (poll c1)"
    and d1: "distinct (map fst (poll c1))" by simp_all
  from sub reg have "r_fd c \<in> fst ` set (poll c1)" by blast
  then have "map_of (poll c1) (r_fd c) \<noteq> None" by (simp add: map_of_eq_None_iff)
  then have un: "poll_unregister (PyInt (r_fd c)) (poll c1)
                   = Inr (AList.delete (r_fd c) (poll c1))"
    by (simp add: poll_unregister_def)
  note k = delete_keeps_others[of "poll c1" "r_fd c"]
  note pc = handle_event_chan_poll[OF h rb[unfolded e1] un]
  from pc d1 have dp: "distinct (map fst (poll c'))" by (auto simp: AList.distinct_delete)
  have "fst ` set (poll c) - {r_fd c} \<subseteq> fst ` set (poll c')"
  proof (cases "poll c' = poll c1")
    case True
    with sub show ?thesis by auto
  next
    case False
    with pc have pd: "poll c' = AList.delete (r_fd c) (poll c1)" by simp
    from sub have "fst ` set (poll c) - {r_fd c} \<subseteq> fst ` set (poll c1) - {r_fd c}"
      by (rule Diff_mono) simp
    also note k
    finally show ?thesis unfolding pd .
  qed
  moreover from pc have "err = None" by simp
  ultimately show ?thesis using dp by simp
qed

lemma handle_event_sink_ok:
  assumes W: "distinct_sinks c" and reg: "n \<in> fst ` set (poll c)" and nr: "n \<noteq> r_fd c"
    and h: "handle_event e (n, m) c = (c', err)"
  shows "err = None \<and> distinct (map fst (poll c'))
       \<and> fst ` set (poll c) - {n} \<subseteq> fst ` set (poll c') \<and> chan c' = chan c"
proof -
  obtain ss dst ps er where w:
    "write_sinks e n m (sinks c) (out c) (poll c) = (ss, dst, ps, er)"
    by (metis prod.exhaust)
  from W have d1: "distinct (map fd (sinks c))" and d2: "distinct (map fst (poll c))"
    by (simp_all add: distinct_sinks_def)
  from h nr w have c': "err = er" "poll c' = ps" "chan c' = chan c"
    by (auto simp: handle_event_def)
  from write_sinks_distinct[OF d1 reg d2 w] c' show ?thesis by simp
qed

lemma handle_event_ok:
  assumes W: "distinct_sinks c" and reg: "n \<in> fst ` set (poll c)"
    and rd: "n = r_fd c \<and> m AND POLLIN \<noteq> 0 \<longrightarrow> chan c \<noteq> [] \<or> hup c"
    and h: "handle_event e (n, m) c = (c', err)"
  shows "err = None \<and> distinct_sinks c' \<and> fst ` set (poll c) - {n} \<subseteq> fst ` set (poll c')
       \<and> (n \<noteq> r_fd c \<longrightarrow> chan c' = chan c)"
proof -
  note f = handle_event_frame[OF h]
  have ds: "distinct (map fst (poll c')) \<Longrightarrow> distinct_sinks c'"
  proof -
    assume p: "distinct (map fst (poll c'))"
    from f have m: "map fd (sinks c') = map fd (sinks c)" and r: "r_fd c' = r_fd c" by simp_all
    from W have a: "\<forall>sink \<in> set (sinks c). \<exists>k. fd sink = PyInt k \<and> k \<noteq> r_fd c"
      and d: "distinct (map fd (sinks c))" by (simp_all add: distinct_sinks_def)
    have "\<forall>sink \<in> set (sinks c'). \<exists>k. fd sink = PyInt k \<and> k \<noteq> r_fd c'"
    proof
      fix s' assume "s' \<in> set (sinks c')"
      then have "fd s' \<in> set (map fd (sinks c'))" by simp
      with m have "fd s' \<in> set (map fd (sinks c))" by simp
      then obtain s0 where "s0 \<in> set (sinks c)" "fd s0 = fd s'" by auto
      with a r show "\<exists>k. fd s' = PyInt k \<and> k \<noteq> r_fd c'" by metis
    qed
    with d m p show ?thesis by (simp add: distinct_sinks_def)
  qed
  show ?thesis
  proof (cases "n = r_fd c")
    case True
    with reg rd h have
      "r_fd c \<in> fst ` set (poll c)" "m AND POLLIN \<noteq> 0 \<longrightarrow> chan c \<noteq> [] \<or> hup c"
      "handle_event e (r_fd c, m) c = (c', err)" by simp_all
    from handle_event_chan_ok[OF W this] ds True show ?thesis by simp
  next
    case False
    from handle_event_sink_ok[OF W reg False h] ds False show ?thesis by simp
  qed
qed

lemma handle_events_ok:
  assumes "distinct_sinks c" and "distinct (map fst evs)"
    and "fst ` set evs \<subseteq> fst ` set (poll c)"
    and "\<forall>m. (r_fd c, m) \<in> set evs \<and> m AND POLLIN \<noteq> 0 \<longrightarrow> chan c \<noteq> [] \<or> hup c"
    and "handle_events e evs c = (c', err)"
  shows "err = None \<and> distinct_sinks c'"
  using assms
proof (induction evs arbitrary: c)
  case Nil
  then show ?case by simp
next
  case (Cons ev evs)
  obtain n m where ev: "ev = (n, m)" by (cases ev)
  obtain c1 e1 where h: "handle_event e (n, m) c = (c1, e1)" by (metis prod.exhaust)
  from Cons.prems(3) ev have reg: "n \<in> fst ` set (poll c)" by auto
  from Cons.prems(4) ev have rd: "n = r_fd c \<and> m AND POLLIN \<noteq> 0 \<longrightarrow> chan c \<noteq> [] \<or> hup c"
    by auto
  note ok = handle_event_ok[OF Cons.prems(1) reg rd h]
  note f = handle_event_frame[OF h]
  from ok h ev Cons.prems(5) have r: "handle_events e evs c1 = (c', err)" by simp
  from Cons.prems(2) ev have d: "distinct (map fst evs)" and nn: "n \<notin> fst ` set evs" by auto
  from Cons.prems(3) have "fst ` set evs \<subseteq> fst ` set (poll c)" by auto
  moreover from ok have "fst ` set (poll c) - {n} \<subseteq> fst ` set (poll c1)" by simp
  ultimately have k: "fst ` set evs \<subseteq> fst ` set (poll c1)" using nn by blast
  have q: "\<forall>m. (r_fd c1, m) \<in> set evs \<and> m AND POLLIN \<noteq> 0 \<longrightarrow> chan c1 \<noteq> [] \<or> hup c1"
  proof (cases "n = r_fd c")
    case True
    with nn f show ?thesis by force
  next
    case False
    with ok f Cons.prems(4) show ?thesis by auto
  qed
  from ok have "distinct_sinks c1" by simp
  from Cons.IH[OF this d k q r] show ?case .
qed

lemma loop_body_ok:
  assumes W: "distinct_sinks c"
  shows "loop_body e c \<noteq> Raise x c'"
    and "loop_body e c = Continue c' \<or> loop_body e c = Break c' \<Longrightarrow> distinct_sinks c'"
proof -
  define c1 where "c1 = (if \<not> closed c then c\<lparr>closed := isSet (signal_closed c) (cproc c)\<rparr> else c)"
  define evs where "evs = (case poll_poll e c1 of Inl err \<Rightarrow> [] | Inr evs \<Rightarrow> evs)"
  have W1: "distinct_sinks c1" using W by (simp add: c1_def distinct_sinks_def)
  have ev: "distinct (map fst evs) \<and> fst ` set evs \<subseteq> fst ` set (poll c1)
          \<and> (\<forall>m. (r_fd c1, m) \<in> set evs \<and> m AND POLLIN \<noteq> 0 \<longrightarrow> chan c1 \<noteq> [] \<or> hup c1)"
  proof (cases "poll_poll e c1")
    case (Inl a)
    then show ?thesis by (simp add: evs_def)
  next
    case (Inr b)
    then have "evs = b" by (simp add: evs_def)
    with Inr poll_poll_events[OF Inr] poll_pollin[OF Inr] W1 show ?thesis
      by (auto simp: distinct_sinks_def)
  qed
  have ok: "\<And>c2 er. handle_events e evs c1 = (c2, er) \<Longrightarrow> er = None \<and> distinct_sinks c2"
    using handle_events_ok[OF W1] ev by blast
  show "loop_body e c \<noteq> Raise x c'"
    using ok
    by (auto simp: loop_body_def Let_def c1_def[symmetric] evs_def[symmetric]
             split: prod.splits option.splits)
  show "loop_body e c = Continue c' \<or> loop_body e c = Break c' \<Longrightarrow> distinct_sinks c'"
    using ok W1
    by (auto simp: loop_body_def Let_def c1_def[symmetric] evs_def[symmetric]
             split: prod.splits option.splits if_splits)
qed

lemma child_step_no_exception:
  assumes "case st of Running c \<Rightarrow> distinct_sinks c | Crashed x c \<Rightarrow> False | _ \<Rightarrow> True"
  shows "case child_step st ev of Running c \<Rightarrow> distinct_sinks c | Crashed x c \<Rightarrow> False
           | _ \<Rightarrow> True"
proof (cases st)
  case (Running c)
  with assms have W: "distinct_sinks c" by simp
  show ?thesis
  proof (cases ev)
    case (Iterate e)
    show ?thesis
    proof (cases "loop_body e c")
      case (Continue c')
      with loop_body_ok(2)[OF W, of e c'] Running Iterate show ?thesis by simp
    next
      case (Break c')
      with Running Iterate show ?thesis by simp
    next
      case (Raise x c')
      with loop_body_ok(1)[OF W, of e x c'] show ?thesis by simp
    qed
  qed (use Running W in \<open>auto simp: distinct_sinks_def split: option.splits\<close>)
qed (use assms in \<open>cases ev; simp\<close>)+

lemma child_run_no_exception:
  assumes "case st of Running c \<Rightarrow> distinct_sinks c | Crashed x c \<Rightarrow> False | _ \<Rightarrow> True"
  shows "case child_run st evs of Running c \<Rightarrow> distinct_sinks c | Crashed x c \<Rightarrow> False
           | _ \<Rightarrow> True"
  using assms
proof (induction evs arbitrary: st)
  case Nil
  then show ?case by simp
next
  case (Cons ev evs)
  from child_step_no_exception[OF Cons.prems] have
    "case child_step st ev of Running c \<Rightarrow> distinct_sinks c | Crashed x c \<Rightarrow> False
       | _ \<Rightarrow> True" .
  from Cons.IH[OF this] show ?case by simp
qed

text \<open>
  With sinks on pairwise different integer descriptors, none of them the channel's read
  end, no exception ever leaves the loop: the only way out is the guarded break.
\<close>

lemma collector_no_exception:
  assumes "distinct_sinks c"
  shows "child_run (Running c) evs \<noteq> Crashed x c'"
proof
  assume a: "child_run (Running c) evs = Crashed x c'"
  have "case Running c of Running c \<Rightarrow> distinct_sinks c | Crashed x c \<Rightarrow> False | _ \<Rightarrow> True"
    using assms by simp
  from child_run_no_exception[OF this, of evs] a show False by simp
qed

lemma distinct_sinks_plain:
  "r \<noteq> outfd \<Longrightarrow> distinct_sinks (collector_init r outfd orig False [] p sig)"
  by (simp add: distinct_sinks_def collector_init_def make_sinks_def Sink_init_def hasattr_def)

text \<open>
  C2 (evaluated where the code fails): two extra files with the same descriptor 5. After
  one byte has been read and buffered, descriptor 5 is reported writable while the
  outpipe is not; both sinks on 5 drain, the second \<open>poll.unregister(5)\<close> raises KeyError,
  and the exception leaves the loop with no stop observed and the outpipe sink still
  holding the byte, without reaching \<open>os._exit\<close>.
\<close>

theorem collector_duplicate_fd_KeyError:
  "(case child_run
           (Running (collector_init 3 4 6 False
                       [PyObject [(''fileno'', 5)], PyObject [(''fileno'', 5)]]
                       \<lparr>sig_values = [False], handler = Some 0\<rparr> 0))
           [Wrote ''x'',
            Iterate \<lparr>poll_fails = False, ready = (\<lambda>_. 0), accepts = (\<lambda>_. Written 1)\<rparr>,
            Iterate \<lparr>poll_fails = False, ready = (\<lambda>n. if n = 5 then POLLOUT else 0),
                     accepts = (\<lambda>_. Written 1)\<rparr>]
    of Crashed err c \<Rightarrow> err = KeyError \<and> \<not> closed c \<and> map data (sinks c) = [''x'', [], []]
     | _ \<Rightarrow> False)"
  by (simp add: collector_defs)

text \<open>
  C1 (evaluated where the code fails): the trapped process writes \<open>A\<close> and closes the
  splice before the collector's next iteration. That iteration sees the stop signal and
  no unwritten data in the sinks, and breaks without reading the channel: the collector
  exits with \<open>A\<close> still in the channel and nothing written to the outpipe (descriptor 4).
\<close>

theorem collector_exits_with_unread_channel:
  "(case child_run
           (Running (collector_init 3 4 6 False [] \<lparr>sig_values = [False], handler = Some 0\<rparr> 0))
           [Iterate \<lparr>poll_fails = False, ready = (\<lambda>_. 0), accepts = (\<lambda>_. Written 0)\<rparr>,
            Wrote ''A'', CloseWriter, Signal,
            Iterate \<lparr>poll_fails = False, ready = (\<lambda>_. 0), accepts = (\<lambda>_. Written 0)\<rparr>]
    of Exited n c \<Rightarrow> n = 0 \<and> out c 4 = [] \<and> chan c = ''A'' | _ \<Rightarrow> False)
   \<and> written [Iterate \<lparr>poll_fails = False, ready = (\<lambda>_. 0), accepts = (\<lambda>_. Written 0)\<rparr>,
            Wrote ''A'', CloseWriter, Signal,
            Iterate \<lparr>poll_fails = False, ready = (\<lambda>_. 0), accepts = (\<lambda>_. Written 0)\<rparr>] = ''A''"
  by (simp add: collector_defs)

end
